theory Spec2Isabelle
  imports Main "HOL-Library.Word" "HOL-Library.AList" "HOL-Library.Multiset"
begin

unbundle bit_operations_syntax

section \<open>Basic types: bytes, fingerprints, wall time and durations\<close>

type_synonym byte = "8 word"
type_synonym u64 = "64 word"

text \<open>
  A \<^verbatim>\<open>time.Time\<close> is an instant, counted here in nanoseconds from the zero Time, so
  that \<^verbatim>\<open>t.IsZero()\<close> is \<open>t = 0\<close>. A \<^verbatim>\<open>time.Duration\<close> is a signed 64-bit count of
  nanoseconds: \<^verbatim>\<open>Sub\<close> saturates at the largest and smallest Duration, and the
  multiplication of two Durations wraps around.
\<close>

type_synonym time = int
type_synonym duration = int

definition maxDuration :: duration where
  "maxDuration = 2 ^ 63 - 1"

definition minDuration :: duration where
  "minDuration = - (2 ^ 63)"

definition Millisecond :: duration where
  "Millisecond = 1000000"

definition Second :: duration where
  "Second = 1000000000"

definition IsZero :: "time \<Rightarrow> bool" where
  "IsZero t = (t = 0)"

definition After :: "time \<Rightarrow> time \<Rightarrow> bool" where
  "After t u = (u < t)"

definition Before :: "time \<Rightarrow> time \<Rightarrow> bool" where
  "Before t u = (t < u)"

definition Add :: "time \<Rightarrow> duration \<Rightarrow> time" where
  "Add t d = t + d"

definition Sub :: "time \<Rightarrow> time \<Rightarrow> duration" where
  "Sub t u =
     (if t - u > maxDuration then maxDuration
      else if t - u < minDuration then minDuration
      else t - u)"

definition mulDuration :: "duration \<Rightarrow> duration \<Rightarrow> duration" where
  "mulDuration a b = (a * b + 2 ^ 63) mod 2 ^ 64 - 2 ^ 63"

definition defaultCacheTTL :: duration where
  "defaultCacheTTL = 5 * Second"

definition requestTimeout :: duration where
  "requestTimeout = 3 * Second"

definition respFlushTimeout :: duration where
  "respFlushTimeout = 50 * Millisecond"

section \<open>The fingerprint\<close>

definition offset64 :: u64 where
  "offset64 = 14695981039346656037"

definition prime64 :: u64 where
  "prime64 = 1099511628211"

text \<open>The loop of \<^verbatim>\<open>hashData\<close>, with the running hash as accumulator.\<close>

fun hashLoop :: "u64 \<Rightarrow> byte list \<Rightarrow> u64" where
  "hashLoop hash [] = hash"
| "hashLoop hash (b # bs) = hashLoop ((hash XOR ucast b) * prime64) bs"

definition hashData :: "byte list \<Rightarrow> u64" where
  "hashData dat = hashLoop offset64 dat"

text \<open>
  FNV-1a as the specification words it, on natural numbers: start from the offset basis,
  and for every byte first XOR it into the hash, then multiply by the prime, keeping 64 bits.
\<close>

definition fnv1a64_spec :: "nat list \<Rightarrow> nat" where
  "fnv1a64_spec bs =
     foldl (\<lambda>h b. ((h XOR b) * 1099511628211) mod 2 ^ 64) 14695981039346656037 bs"

section \<open>The response cache\<close>

record cacheEntry =
  data :: "byte list"
  expireAt :: time

type_synonym RequestCache = "u64 \<rightharpoonup> cacheEntry"

definition NewRequestCache :: RequestCache where
  "NewRequestCache = Map.empty"

definition RequestCache_Get :: "RequestCache \<Rightarrow> u64 \<Rightarrow> time \<Rightarrow> byte list option" where
  "RequestCache_Get c hash now =
     (case c hash of
        None \<Rightarrow> None
      | Some entry \<Rightarrow> if After now (expireAt entry) then None else Some (data entry))"

definition SetWithTTL :: "RequestCache \<Rightarrow> u64 \<Rightarrow> byte list \<Rightarrow> duration \<Rightarrow> time \<Rightarrow> RequestCache" where
  "SetWithTTL c hash dat ttl now = c(hash \<mapsto> \<lparr>data = dat, expireAt = Add now ttl\<rparr>)"

definition RequestCache_Set :: "RequestCache \<Rightarrow> u64 \<Rightarrow> byte list \<Rightarrow> time \<Rightarrow> RequestCache" where
  "RequestCache_Set c hash dat now = SetWithTTL c hash dat defaultCacheTTL now"

text \<open>
  The sweep ranges over the map and deletes the entries it finds expired; each key is
  decided on its own entry, so the result is given key by key.
\<close>

definition RequestCache_CleanupExpired :: "RequestCache \<Rightarrow> time \<Rightarrow> RequestCache" where
  "RequestCache_CleanupExpired c now =
     (\<lambda>hash. case c hash of
        None \<Rightarrow> None
      | Some entry \<Rightarrow> if After now (expireAt entry) then None else Some entry)"

section \<open>Requests and their completion sink\<close>

text \<open>
  The response channel is a \<^verbatim>\<open>chan []byte\<close> of capacity 1. A send on a closed channel
  and the close of a closed channel panic, and a send on a full channel blocks: the model
  records any of them in \<open>fault\<close>, after which the channel no longer changes.
\<close>

record chan =
  buf :: "byte list list"
  closed :: bool
  fault :: bool

definition make_chan :: chan where
  "make_chan = \<lparr>buf = [], closed = False, fault = False\<rparr>"

definition chan_send :: "chan \<Rightarrow> byte list \<Rightarrow> chan" where
  "chan_send ch v =
     (if fault ch then ch
      else if closed ch \<or> 1 \<le> length (buf ch) then ch\<lparr>fault := True\<rparr>
      else ch\<lparr>buf := buf ch @ [v]\<rparr>)"

definition chan_close :: "chan \<Rightarrow> chan" where
  "chan_close ch =
     (if fault ch then ch
      else if closed ch then ch\<lparr>fault := True\<rparr>
      else ch\<lparr>closed := True\<rparr>)"

text \<open>
  Requests live on the heap and are shared by pointer; a pointer is an address of type
  \<open>ref\<close>. The atomic flag \<^verbatim>\<open>done\<close> is the field \<open>done_flag\<close>.
\<close>

type_synonym ref = nat

record PendingRequest =
  ID :: u64
  ClientID :: string
  DataHash :: u64
  Request :: "byte list"
  ResponseCh :: chan
  Timestamp :: time
  SentAt :: time
  done_flag :: bool

text \<open>\<^verbatim>\<open>done.Swap(true)\<close> is one atomic step: it sets the flag and returns the old value.\<close>

definition finishWithResponse :: "PendingRequest \<Rightarrow> byte list \<Rightarrow> PendingRequest" where
  "finishWithResponse r dat =
     (if done_flag r then r
      else r\<lparr>done_flag := True, ResponseCh := chan_close (chan_send (ResponseCh r) dat)\<rparr>)"

definition finishNoResponse :: "PendingRequest \<Rightarrow> PendingRequest" where
  "finishNoResponse r =
     (if done_flag r then r
      else r\<lparr>done_flag := True, ResponseCh := chan_close (ResponseCh r)\<rparr>)"

text \<open>What the reader of a response channel gets: the bytes, or a closed empty channel.\<close>

datatype outcome = Delivered "byte list" | NoResponse

datatype finisher = WithResponse "byte list" | WithoutResponse

fun finish :: "finisher \<Rightarrow> PendingRequest \<Rightarrow> PendingRequest" where
  "finish (WithResponse dat) r = finishWithResponse r dat"
| "finish WithoutResponse r = finishNoResponse r"

fun outcome_of :: "finisher \<Rightarrow> outcome" where
  "outcome_of (WithResponse dat) = Delivered dat"
| "outcome_of WithoutResponse = NoResponse"

definition received :: "chan \<Rightarrow> outcome option" where
  "received ch =
     (if fault ch \<or> \<not> closed ch then None
      else case buf ch of
        [] \<Rightarrow> Some NoResponse
      | [v] \<Rightarrow> Some (Delivered v)
      | _ \<Rightarrow> None)"

section \<open>The issue log\<close>

text \<open>
  The issue logger and its throttle table are package-level variables, shared by all the
  queues of the process. A logged line is kept as its format string; the arguments are not
  rendered.
\<close>

record issueLogger =
  lines :: "string list"
  issueThrottleLast :: "string \<rightharpoonup> time"

text \<open>The issue log of a process that has not logged anything yet.\<close>

definition emptyLog :: issueLogger where
  "emptyLog = \<lparr>lines = [], issueThrottleLast = Map.empty\<rparr>"

definition logIssuef :: "issueLogger \<Rightarrow> string \<Rightarrow> issueLogger" where
  "logIssuef L line = L\<lparr>lines := lines L @ [line]\<rparr>"

definition logIssuefThrottled ::
  "issueLogger \<Rightarrow> string \<Rightarrow> duration \<Rightarrow> string \<Rightarrow> time \<Rightarrow> issueLogger" where
  "logIssuefThrottled L key interval line now =
     (if interval \<le> 0 then logIssuef L line
      else
        let last = (case issueThrottleLast L key of None \<Rightarrow> 0 | Some t \<Rightarrow> t) in
        if \<not> IsZero last \<and> Sub now last < interval then L
        else logIssuef (L\<lparr>issueThrottleLast := (issueThrottleLast L)(key \<mapsto> now)\<rparr>) line)"

section \<open>The write queue\<close>

datatype respState = respStateIdle | respStateSending | respStateWaiting

text \<open>
  The fields of \<^verbatim>\<open>WriteQueue\<close>, followed by what the queue works on from outside the
  struct: the heap of request objects with its next free address, and the issue logger.
  The serial port is the list of the payloads handed to \<^verbatim>\<open>Write\<close> so far; \<open>None\<close> is
  a nil port. The map \<^verbatim>\<open>waiting\<close> is an association list, since the reaper ranges over
  it; the order of its keys stands for the order in which the range happens to visit them.
  \<open>respTimer\<close> tells whether the flush timer exists. Of the two channels
  \<^verbatim>\<open>stopFlushLoop\<close> and \<^verbatim>\<open>stopCleanup\<close>, on which nothing is ever sent, the model keeps
  whether they have been closed. The mutex is left out: each critical section is one step.
\<close>

record WriteQueue =
  cache :: RequestCache
  pending :: "ref list"
  serial :: "byte list list option"
  nextReqID :: u64
  clientIndex :: "string \<rightharpoonup> int"
  inflight :: "u64 \<rightharpoonup> ref"
  waiting :: "(u64 \<times> ref list) list"
  respBuf :: "byte list"
  respTimer :: bool
  currentReqID :: u64
  respState :: respState
  dropUntil :: time
  stopFlushLoop :: bool
  stopCleanup :: bool
  heap :: "ref \<Rightarrow> PendingRequest"
  heapNext :: ref
  issues :: issueLogger

definition zeroRequest :: PendingRequest where
  "zeroRequest =
     \<lparr>ID = 0, ClientID = [], DataHash = 0, Request = [], ResponseCh = make_chan,
      Timestamp = 0, SentAt = 0, done_flag = False\<rparr>"

text \<open>
  \<^verbatim>\<open>NewWriteQueue\<close> does not touch the issue logger: \<open>L\<close> is the logger as the new queue
  finds it. The two stop channels are made open, and no request object of the new queue
  exists yet.
\<close>

definition NewWriteQueue :: "byte list list option \<Rightarrow> issueLogger \<Rightarrow> WriteQueue" where
  "NewWriteQueue sp L =
     \<lparr>cache = NewRequestCache, pending = [], serial = sp, nextReqID = 0,
      clientIndex = Map.empty, inflight = Map.empty, waiting = [], respBuf = [],
      respTimer = False, currentReqID = 0, respState = respStateIdle, dropUntil = 0,
      stopFlushLoop = False, stopCleanup = False,
      heap = (\<lambda>_. zeroRequest), heapNext = 0, issues = L\<rparr>"

text \<open>\<^verbatim>\<open>q.waiting[hash]\<close>: a missing key reads as the nil slice.\<close>

definition waitingList_of :: "(u64 \<times> ref list) list \<Rightarrow> u64 \<Rightarrow> ref list" where
  "waitingList_of w hash = (case map_of w hash of None \<Rightarrow> [] | Some l \<Rightarrow> l)"

text \<open>\<^verbatim>\<open>for _, w := range waitingList { delete(q.clientIndex, w.ClientID) }\<close>\<close>

definition deleteClients ::
  "(ref \<Rightarrow> PendingRequest) \<Rightarrow> ref list \<Rightarrow> (string \<rightharpoonup> int) \<Rightarrow> (string \<rightharpoonup> int)" where
  "deleteClients h ws ci = fold (\<lambda>w m. m(ClientID (h w) := None)) ws ci"

definition finishAll ::
  "finisher \<Rightarrow> ref list \<Rightarrow> (ref \<Rightarrow> PendingRequest) \<Rightarrow> (ref \<Rightarrow> PendingRequest)" where
  "finishAll f rs h = fold (\<lambda>r m. m(r := finish f (m r))) rs h"

definition nextHead :: "ref list \<Rightarrow> ref option" where
  "nextHead ps = (case ps of [] \<Rightarrow> None | r # _ \<Rightarrow> Some r)"

subsection \<open>Send\<close>

text \<open>
  What \<^verbatim>\<open>Send\<close> returns is a channel: one made and resolved on the spot for a cache hit,
  or the response channel of the request object it created.
\<close>

datatype handle = Resolved chan | ChannelOf ref

text \<open>
  \<open>t1\<close>, \<open>t2\<close> and \<open>t3\<close> are the clock readings of the first cache lookup, of the lookup
  under the lock and of the request's time stamp. The third component of the result is
  the request for which a \<^verbatim>\<open>sendToSerial\<close> goroutine is started, if any.
\<close>

definition Send ::
  "WriteQueue \<Rightarrow> string \<Rightarrow> byte list \<Rightarrow> time \<Rightarrow> time \<Rightarrow> time
     \<Rightarrow> WriteQueue \<times> handle \<times> ref option" where
  "Send q clientID dat t1 t2 t3 =
     (let respCh = make_chan; hash = hashData dat in
      case RequestCache_Get (cache q) hash t1 of
        Some cached \<Rightarrow> (q, Resolved (chan_close (chan_send respCh cached)), None)
      | None \<Rightarrow>
      (case RequestCache_Get (cache q) hash t2 of
        Some cached \<Rightarrow> (q, Resolved (chan_close (chan_send respCh cached)), None)
      | None \<Rightarrow>
        if inflight q hash \<noteq> None then
          let r = heapNext q;
              req = \<lparr>ID = 0, ClientID = clientID, DataHash = hash, Request = dat,
                     ResponseCh = respCh, Timestamp = t3, SentAt = 0, done_flag = False\<rparr>
          in (q\<lparr>heap := (heap q)(r := req), heapNext := Suc r,
                 waiting := AList.update hash (waitingList_of (waiting q) hash @ [r]) (waiting q),
                 clientIndex := (clientIndex q)(clientID \<mapsto> - 1)\<rparr>,
              ChannelOf r, None)
        else
          let r = heapNext q;
              newID = nextReqID q + 1;
              req = \<lparr>ID = newID, ClientID = clientID, DataHash = hash, Request = dat,
                     ResponseCh = respCh, Timestamp = t3, SentAt = 0, done_flag = False\<rparr>;
              pending' = pending q @ [r]
          in (q\<lparr>heap := (heap q)(r := req), heapNext := Suc r, nextReqID := newID,
                 inflight := (inflight q)(hash \<mapsto> r),
                 pending := pending',
                 clientIndex := (clientIndex q)(clientID \<mapsto> int (length pending') - 1)\<rparr>,
              ChannelOf r,
              if length pending' = 1 then Some r else None)))"

subsection \<open>sendToSerial\<close>

text \<open>
  \<^verbatim>\<open>sendToSerial\<close> holds the lock twice, before and after the write, and other operations
  may run in between. \<open>sendToSerial_begin\<close> is the first critical section together with
  the call of \<^verbatim>\<open>Write\<close> that follows it; it tells whether the write was issued.
  \<open>sendToSerial_end\<close> is the second critical section and what follows it, given whether
  the write returned an error; it yields the request for which the next goroutine is started.
\<close>

definition sendToSerial_begin :: "WriteQueue \<Rightarrow> ref \<Rightarrow> WriteQueue \<times> bool" where
  "sendToSerial_begin q req =
     (case serial q of
        None \<Rightarrow> (q, False)
      | Some written \<Rightarrow>
          if pending q = [] \<or> hd (pending q) \<noteq> req then (q, False)
          else if respState q \<noteq> respStateIdle then (q, False)
          else (q\<lparr>respState := respStateSending,
                   serial := Some (written @ [Request (heap q req)])\<rparr>, True))"

definition sendToSerial_end ::
  "WriteQueue \<Rightarrow> ref \<Rightarrow> bool \<Rightarrow> time \<Rightarrow> WriteQueue \<times> ref option" where
  "sendToSerial_end q req err now =
     (if pending q = [] \<or> hd (pending q) \<noteq> req then (q, None)
      else if err then
        let hash = DataHash (heap q req);
            waitingList = waitingList_of (waiting q) hash;
            q1 = q\<lparr>pending := tl (pending q),
                   clientIndex := deleteClients (heap q) waitingList
                                    ((clientIndex q)(ClientID (heap q req) := None)),
                   inflight := (inflight q)(hash := None),
                   waiting := AList.delete hash (waiting q),
                   currentReqID := 0,
                   respState := respStateIdle,
                   dropUntil := Add now (150 * Millisecond)\<rparr>;
            nextReq = nextHead (pending q1);
            q2 = q1\<lparr>issues := logIssuef (issues q1)
                       ''serial write failed: req_id=%d client=%s hash=%d err=%v''\<rparr>
        in (q2\<lparr>heap := finishAll WithoutResponse (req # waitingList) (heap q2)\<rparr>, nextReq)
      else
        (q\<lparr>heap := (heap q)(req := (heap q req)\<lparr>SentAt := now\<rparr>),
           currentReqID := ID (heap q req),
           respState := respStateWaiting\<rparr>, None))"

text \<open>A whole call of \<^verbatim>\<open>sendToSerial\<close> in which nothing else runs during the write.\<close>

definition sendToSerial ::
  "WriteQueue \<Rightarrow> ref \<Rightarrow> bool \<Rightarrow> time \<Rightarrow> WriteQueue \<times> ref option" where
  "sendToSerial q req err now =
     (case sendToSerial_begin q req of
        (q1, False) \<Rightarrow> (q1, None)
      | (q1, True) \<Rightarrow> sendToSerial_end q1 req err now)"

subsection \<open>OnSerialData and the flush\<close>

text \<open>
  \<open>now\<close> is the clock reading compared with \<^verbatim>\<open>dropUntil\<close>, \<open>tlog\<close> the one the
  throttled logger takes. When the timer does not exist yet, it is created and the flush
  loop is started with it.
\<close>

definition OnSerialData :: "WriteQueue \<Rightarrow> byte list \<Rightarrow> time \<Rightarrow> time \<Rightarrow> WriteQueue" where
  "OnSerialData q dat now tlog =
     (if respState q \<noteq> respStateWaiting then
        q\<lparr>issues := logIssuefThrottled (issues q) ''drop_state'' Second
                       ''drop rx: state=%d bytes=%d'' tlog\<rparr>
      else if pending q = [] then
        q\<lparr>issues := logIssuefThrottled (issues q) ''drop_no_pending'' Second
                       ''drop rx: no pending bytes=%d'' tlog\<rparr>
      else
        let req = heap q (hd (pending q)) in
        if ID req \<noteq> currentReqID q then
          (if Before now (dropUntil q) then
             q\<lparr>issues := logIssuefThrottled (issues q) ''drop_until'' Second
                            ''drop rx: drop_until=%s bytes=%d'' tlog\<rparr>
           else
             q\<lparr>issues := logIssuefThrottled (issues q) ''drop_id_mismatch'' Second
                            ''drop rx: current_id=%d pending_id=%d bytes=%d'' tlog\<rparr>)
        else if IsZero (SentAt req) then
          q\<lparr>issues := logIssuefThrottled (issues q) ''drop_unsent'' Second
                         ''drop rx: req_id=%d bytes=%d'' tlog\<rparr>
        else q\<lparr>respBuf := respBuf q @ dat, respTimer := True\<rparr>)"

text \<open>
  \<open>now\<close> is the clock reading the round-trip time is taken from, \<open>tset\<close> the one
  \<^verbatim>\<open>SetWithTTL\<close> takes.
\<close>

definition flushResponseLocked ::
  "WriteQueue \<Rightarrow> time \<Rightarrow> time \<Rightarrow> WriteQueue \<times> ref option" where
  "flushResponseLocked q now tset =
     (if pending q = [] \<or> respBuf q = [] then (q\<lparr>respBuf := []\<rparr>, None)
      else
        let r = hd (pending q);
            req = heap q r;
            sendTime = (if IsZero (SentAt req) then Timestamp req else SentAt req);
            rtt0 = Sub now sendTime;
            rtt = (if rtt0 < 0 then 0 else rtt0);
            cacheTTL0 = mulDuration rtt 2;
            cacheTTL = (if cacheTTL0 < Second then Second
                        else if cacheTTL0 > 30 * Second then 30 * Second
                        else cacheTTL0);
            hash = DataHash req;
            waitingList = waitingList_of (waiting q) hash;
            responseData = respBuf q;
            q1 = q\<lparr>cache := SetWithTTL (cache q) (DataHash req) (respBuf q) cacheTTL tset,
                   waiting := AList.delete hash (waiting q),
                   clientIndex := deleteClients (heap q) waitingList
                                    ((clientIndex q)(ClientID req := None)),
                   inflight := (inflight q)(hash := None),
                   pending := tl (pending q),
                   currentReqID := 0,
                   respState := respStateIdle,
                   respBuf := []\<rparr>;
            nextReq = nextHead (pending q1)
        in (q1\<lparr>heap := finishAll (WithResponse responseData) (r # waitingList) (heap q1)\<rparr>,
            nextReq))"

text \<open>One turn of \<^verbatim>\<open>flushResponseLoop\<close> after the timer has fired.\<close>

definition flushResponseLoop_fired ::
  "WriteQueue \<Rightarrow> time \<Rightarrow> time \<Rightarrow> WriteQueue \<times> ref option" where
  "flushResponseLoop_fired q now tset =
     (if pending q \<noteq> [] \<and> respBuf q \<noteq> [] then flushResponseLocked q now tset
      else (q\<lparr>respBuf := []\<rparr>, None))"

subsection \<open>CleanupExpired\<close>

text \<open>The local variables of \<^verbatim>\<open>CleanupExpired\<close>.\<close>

record cleanupLocals =
  active :: "ref list"
  newIndex :: "string \<rightharpoonup> int"
  expired :: "ref list"
  firstWasExpired :: bool

text \<open>The body of the loop over \<^verbatim>\<open>q.pending\<close>, at index \<open>i\<close> and request \<open>r\<close>.\<close>

definition cleanupPendingStep ::
  "time \<Rightarrow> nat \<Rightarrow> ref \<Rightarrow> WriteQueue \<times> cleanupLocals \<Rightarrow> WriteQueue \<times> cleanupLocals" where
  "cleanupPendingStep now i r ql =
     (let q = fst ql; l = snd ql;
          req = heap q r;
          timeoutBase = (if IsZero (SentAt req) then Timestamp req else SentAt req)
      in
      if Sub now timeoutBase < requestTimeout then
        (q, l\<lparr>active := active l @ [r],
              newIndex := (newIndex l)(ClientID req \<mapsto> int (length (active l @ [r])) - 1)\<rparr>)
      else
        let l1 = l\<lparr>expired := expired l @ [r]\<rparr>;
            q1 = q\<lparr>clientIndex := (clientIndex q)(ClientID req := None),
                   inflight := (inflight q)(DataHash req := None)\<rparr>;
            ql2 = (case map_of (waiting q1) (DataHash req) of
                     None \<Rightarrow> (q1, l1)
                   | Some waitingList \<Rightarrow>
                       (q1\<lparr>waiting := AList.delete (DataHash req) (waiting q1),
                           clientIndex := deleteClients (heap q1) waitingList (clientIndex q1)\<rparr>,
                        l1\<lparr>expired := expired l1 @ waitingList\<rparr>))
        in if i = 0 then (fst ql2, (snd ql2)\<lparr>firstWasExpired := True\<rparr>) else ql2)"

fun cleanupPending ::
  "time \<Rightarrow> nat \<Rightarrow> ref list \<Rightarrow> WriteQueue \<times> cleanupLocals \<Rightarrow> WriteQueue \<times> cleanupLocals" where
  "cleanupPending now i [] ql = ql"
| "cleanupPending now i (r # rs) ql =
     cleanupPending now (Suc i) rs (cleanupPendingStep now i r ql)"

text \<open>
  The body of the loop over \<^verbatim>\<open>q.waiting\<close>, at one key and its list. The inner loop
  keeps the waiters that are not timed out, in order, and moves the others to
  \<^verbatim>\<open>expired\<close>, deleting their clients from the index.
\<close>

definition waiterAlive :: "WriteQueue \<Rightarrow> time \<Rightarrow> ref \<Rightarrow> bool" where
  "waiterAlive q now w = (Sub now (Timestamp (heap q w)) < requestTimeout)"

definition cleanupWaitingStep ::
  "time \<Rightarrow> u64 \<times> ref list \<Rightarrow> WriteQueue \<times> cleanupLocals \<Rightarrow> WriteQueue \<times> cleanupLocals" where
  "cleanupWaitingStep now entry ql =
     (let q = fst ql; l = snd ql;
          hash = fst entry; waitingList = snd entry;
          activeWaiting = filter (waiterAlive q now) waitingList;
          timedOut = filter (\<lambda>w. \<not> waiterAlive q now w) waitingList;
          l1 = l\<lparr>expired := expired l @ timedOut\<rparr>;
          q1 = q\<lparr>clientIndex := deleteClients (heap q) timedOut (clientIndex q)\<rparr>
      in
      if 0 < length activeWaiting
      then (q1\<lparr>waiting := AList.update hash activeWaiting (waiting q1)\<rparr>, l1)
      else (q1\<lparr>waiting := AList.delete hash (waiting q1)\<rparr>, l1))"

text \<open>The logging and finishing of one timed-out request, after the lock is released.\<close>

definition finishExpired :: "ref \<Rightarrow> WriteQueue \<Rightarrow> WriteQueue" where
  "finishExpired r q =
     q\<lparr>issues := logIssuef (issues q)
                    ''request timeout: req_id=%d client=%s hash=%d sent_at=%v queued_at=%v'',
       heap := (heap q)(r := finishNoResponse (heap q r))\<rparr>"

text \<open>
  \<open>tc\<close> is the clock reading of the cache sweep, \<open>now\<close> the one of the reaper itself.
  The last lines read \<^verbatim>\<open>q.pending\<close> again after the lock was given up for the
  finishing; here nothing runs in between.
\<close>

definition cleanupLocked :: "WriteQueue \<Rightarrow> time \<Rightarrow> time \<Rightarrow> WriteQueue \<times> cleanupLocals" where
  "cleanupLocked q tc now =
     (let q0 = q\<lparr>cache := RequestCache_CleanupExpired (cache q) tc\<rparr>;
          ql1 = cleanupPending now 0 (pending q0)
                  (q0, \<lparr>active = [], newIndex = Map.empty, expired = [],
                        firstWasExpired = False\<rparr>);
          q2 = (fst ql1)\<lparr>pending := active (snd ql1), clientIndex := newIndex (snd ql1)\<rparr>;
          ql3 = fold (cleanupWaitingStep now) (waiting q2) (q2, snd ql1);
          q3 = fst ql3; l3 = snd ql3
      in
      (if firstWasExpired l3
       then q3\<lparr>respBuf := [], currentReqID := 0, respState := respStateIdle,
               dropUntil := Add now (150 * Millisecond)\<rparr>
       else q3, l3))"

definition WriteQueue_CleanupExpired ::
  "WriteQueue \<Rightarrow> time \<Rightarrow> time \<Rightarrow> WriteQueue \<times> ref option" where
  "WriteQueue_CleanupExpired q tc now =
     (let ql = cleanupLocked q tc now;
          q5 = fold finishExpired (expired (snd ql)) (fst ql)
      in (q5, if firstWasExpired (snd ql) \<and> 0 < length (pending q5)
              then Some (hd (pending q5)) else None))"

subsection \<open>StopCleanupTimer, the cleanup timer and the flush loop\<close>

text \<open>
  \<^verbatim>\<open>StopCleanupTimer\<close> closes the two stop channels, each once, and then, under the lock,
  stops and forgets the flush timer and empties the response buffer. It finishes no
  request and removes none from the queue.
\<close>

definition StopCleanupTimer :: "WriteQueue \<Rightarrow> WriteQueue" where
  "StopCleanupTimer q =
     q\<lparr>stopCleanup := True, stopFlushLoop := True, respTimer := False, respBuf := []\<rparr>"

text \<open>
  One turn of the loop that \<^verbatim>\<open>StartCleanupTimer\<close> starts. Its \<^verbatim>\<open>select\<close> takes a case that
  is ready: the ticker's when the ticker holds a tick (\<open>tick\<close>), the one of
  \<^verbatim>\<open>stopCleanup\<close> when that channel is closed. When both are ready the runtime picks one
  of them, here the stop if \<open>pickStop\<close>. The result is \<open>None\<close> when the goroutine
  returns; otherwise it is what \<^verbatim>\<open>CleanupExpired\<close> yields, or the queue as it was while no
  case is ready.
\<close>

definition StartCleanupTimer_turn ::
  "WriteQueue \<Rightarrow> bool \<Rightarrow> bool \<Rightarrow> time \<Rightarrow> time \<Rightarrow> (WriteQueue \<times> ref option) option" where
  "StartCleanupTimer_turn q tick pickStop tc now =
     (if stopCleanup q \<and> (\<not> tick \<or> pickStop) then None
      else if tick then Some (WriteQueue_CleanupExpired q tc now)
      else Some (q, None))"

text \<open>
  One turn of \<^verbatim>\<open>flushResponseLoop\<close>. Its \<^verbatim>\<open>select\<close> has the two stop channels and the
  channel of the flush timer, which is read under the lock on entering the \<^verbatim>\<open>select\<close>:
  without a timer it is the nil channel, which is never ready, and with a timer it is
  ready when the timer has fired (\<open>fired\<close>).
\<close>

definition flushResponseLoop_turn ::
  "WriteQueue \<Rightarrow> bool \<Rightarrow> bool \<Rightarrow> time \<Rightarrow> time \<Rightarrow> (WriteQueue \<times> ref option) option" where
  "flushResponseLoop_turn q fired pickStop now tset =
     (if (stopFlushLoop q \<or> stopCleanup q) \<and> (\<not> (respTimer q \<and> fired) \<or> pickStop) then None
      else if respTimer q \<and> fired then Some (flushResponseLoop_fired q now tset)
      else Some (q, None))"

section \<open>Notions used to state the properties\<close>

subsection \<open>Fingerprints, time to live, expiry\<close>

text \<open>The queue with the payload bytes of every request object blanked out.\<close>

definition forgetPayload :: "WriteQueue \<Rightarrow> WriteQueue" where
  "forgetPayload q = q\<lparr>heap := (\<lambda>r. (heap q r)\<lparr>Request := []\<rparr>)\<rparr>"

text \<open>
  Clamping as the specification words it: raised to the lower bound when smaller,
  lowered to the upper bound when larger.
\<close>

definition clamp :: "int \<Rightarrow> int \<Rightarrow> int \<Rightarrow> int" where
  "clamp x lo hi = (if x < lo then lo else if hi < x then hi else x)"

text \<open>
  When the reaper takes a queued request for expired, in the specification's words: its
  \<^verbatim>\<open>sent_at\<close> is set and at least three seconds back, or its \<^verbatim>\<open>sent_at\<close> is unset and
  it was enqueued at least three seconds ago.
\<close>

definition isExpired :: "PendingRequest \<Rightarrow> time \<Rightarrow> bool" where
  "isExpired req now =
     ((\<not> IsZero (SentAt req) \<and> now - SentAt req \<ge> 3 * Second) \<or>
      (IsZero (SentAt req) \<and> now - Timestamp req \<ge> 3 * Second))"

definition survives :: "WriteQueue \<Rightarrow> time \<Rightarrow> ref \<Rightarrow> bool" where
  "survives q now r = (\<not> isExpired (heap q r) now)"

text \<open>
  The tag and the line under which \<^verbatim>\<open>OnSerialData\<close> reports bytes it drops inside the
  drop window, by the first reason that applies.
\<close>

definition discardTag :: "WriteQueue \<Rightarrow> string" where
  "discardTag q =
     (if respState q \<noteq> respStateWaiting then ''drop_state''
      else if pending q = [] then ''drop_no_pending''
      else if ID (heap q (hd (pending q))) \<noteq> currentReqID q then ''drop_until''
      else ''drop_unsent'')"

definition discardLine :: "WriteQueue \<Rightarrow> string" where
  "discardLine q =
     (if respState q \<noteq> respStateWaiting then ''drop rx: state=%d bytes=%d''
      else if pending q = [] then ''drop rx: no pending bytes=%d''
      else if ID (heap q (hd (pending q))) \<noteq> currentReqID q
        then ''drop rx: drop_until=%s bytes=%d''
      else ''drop rx: req_id=%d bytes=%d'')"

subsection \<open>Invariants of the queue\<close>

text \<open>
  State coherence, as the specification words it: in state waiting the queue has a head,
  the head's \<^verbatim>\<open>SentAt\<close> is set and the head's ID is \<^verbatim>\<open>currentReqID\<close>; in state idle
  \<^verbatim>\<open>currentReqID\<close> is 0.
\<close>

definition coherent :: "WriteQueue \<Rightarrow> bool" where
  "coherent q =
     ((respState q = respStateWaiting \<longrightarrow>
         pending q \<noteq> [] \<and>
         \<not> IsZero (SentAt (heap q (hd (pending q)))) \<and>
         ID (heap q (hd (pending q))) = currentReqID q) \<and>
      (respState q = respStateIdle \<longrightarrow> currentReqID q = 0))"

text \<open>The pointers in the queue point to allocated request objects.\<close>

definition allocated :: "WriteQueue \<Rightarrow> bool" where
  "allocated q = (\<forall>r \<in> set (pending q). r < heapNext q)"

text \<open>
  The requests the queue still holds: the queued ones and the waiters of every fingerprint.
\<close>

definition waiters :: "WriteQueue \<Rightarrow> ref list" where
  "waiters q = concat (map snd (waiting q))"

definition tracked :: "WriteQueue \<Rightarrow> ref list" where
  "tracked q = pending q @ waiters q"

text \<open>
  A request nobody has finished yet, and a request that has been given exactly one outcome:
  its channel is closed, without fault, holding either one byte sequence or nothing.
\<close>

definition open_req :: "PendingRequest \<Rightarrow> bool" where
  "open_req r = (\<not> done_flag r \<and> ResponseCh r = make_chan)"

definition completed :: "PendingRequest \<Rightarrow> bool" where
  "completed r = (done_flag r \<and> received (ResponseCh r) \<noteq> None)"

text \<open>
  Every request object ever allocated is either still held by the queue and open, or no
  longer held and completed.
\<close>

definition sink_inv :: "WriteQueue \<Rightarrow> bool" where
  "sink_inv q =
     (distinct (map fst (waiting q)) \<and> distinct (tracked q) \<and>
      (\<forall>r \<in> set (tracked q). r < heapNext q \<and> open_req (heap q r)) \<and>
      (\<forall>r < heapNext q. r \<notin> set (tracked q) \<longrightarrow> completed (heap q r)))"

text \<open>
  The inflight index points to queued requests of the right fingerprint, and the
  fingerprint stored in a request is the one of its payload.
\<close>

definition inflight_inv :: "WriteQueue \<Rightarrow> bool" where
  "inflight_inv q =
     (\<forall>h m. inflight q h = Some m \<longrightarrow> m \<in> set (pending q) \<and> DataHash (heap q m) = h)"

definition fingerprinted :: "WriteQueue \<Rightarrow> bool" where
  "fingerprinted q = (\<forall>r < heapNext q. DataHash (heap q r) = hashData (Request (heap q r)))"

text \<open>
  Two queue states that differ at most in the client index, the inflight index and the
  waiter map.
\<close>

definition sameButMaps :: "WriteQueue \<Rightarrow> WriteQueue \<Rightarrow> bool" where
  "sameButMaps q q' =
     (cache q' = cache q \<and> pending q' = pending q \<and> serial q' = serial q \<and>
      nextReqID q' = nextReqID q \<and> respBuf q' = respBuf q \<and> respTimer q' = respTimer q \<and>
      currentReqID q' = currentReqID q \<and> respState q' = respState q \<and>
      dropUntil q' = dropUntil q \<and> stopFlushLoop q' = stopFlushLoop q \<and>
      stopCleanup q' = stopCleanup q \<and> heap q' = heap q \<and> heapNext q' = heapNext q \<and>
      issues q' = issues q)"

text \<open>
  Two ways an operation may change the queue: it keeps the head (and the state), or it
  drops the head and leaves the state idle. In both no request is added.
\<close>

definition keeps :: "WriteQueue \<Rightarrow> WriteQueue \<Rightarrow> bool" where
  "keeps q q' =
     (heapNext q' = heapNext q \<and> serial q' = serial q \<and>
      (\<forall>x. Request (heap q' x) = Request (heap q x)) \<and>
      set (tracked q') \<subseteq> set (tracked q) \<and>
      respState q' = respState q \<and>
      (respBuf q' = respBuf q \<or> respBuf q' = [] \<or> respState q = respStateWaiting) \<and>
      (pending q = [] \<longrightarrow> pending q' = []) \<and>
      (pending q \<noteq> [] \<longrightarrow> pending q' \<noteq> [] \<and> hd (pending q') = hd (pending q)))"

definition drops :: "WriteQueue \<Rightarrow> WriteQueue \<Rightarrow> bool" where
  "drops q q' =
     (heapNext q' = heapNext q \<and> serial q' = serial q \<and>
      (\<forall>x. Request (heap q' x) = Request (heap q x)) \<and>
      pending q \<noteq> [] \<and>
      set (tracked q') \<subseteq> set (tracked q) - {hd (pending q)} \<and>
      respState q' = respStateIdle \<and>
      (respBuf q' = [] \<or> respBuf q' = respBuf q \<and> respState q = respStateSending))"

subsection \<open>The operations as steps of a running system\<close>

text \<open>
  The operations run concurrently, each holding the lock of the queue for its critical
  section. Here each critical section is one step, and a run of the system is any sequence
  of steps. What an operation does after giving up the lock, finishing the requests it has
  just removed from the queue, touches those requests only and is part of the same step.
  \<^verbatim>\<open>OnSerialData\<close> reads the state just before it takes the lock; the two are one step.
  The first critical section of \<^verbatim>\<open>sendToSerial\<close> may be tried for any request at any
  time, as if a goroutine for it had been started; the second one is taken only by a
  goroutine that has passed the first and issued its write. \<open>writers\<close> holds the
  requests of the goroutines between the two sections, and \<open>wrote\<close> the request of
  every call of \<^verbatim>\<open>Write\<close> so far, in order. \<^verbatim>\<open>StopCleanupTimer\<close> may be called at any
  time; the flush and the reaper are steps that may be taken at any time, also after it,
  as by a loop whose \<^verbatim>\<open>select\<close> finds its timer ready along with the closed stop channel.
\<close>

datatype event =
    EvSend string "byte list" time time time
  | EvWriterBegin ref
  | EvWriterEnd ref bool time
  | EvSerialData "byte list" time time
  | EvFlush time time
  | EvCleanup time time
  | EvStop

record system =
  queue :: WriteQueue
  writers :: "ref list"
  wrote :: "ref list"

definition initial :: "byte list list option \<Rightarrow> issueLogger \<Rightarrow> system" where
  "initial sp L = \<lparr>queue = NewWriteQueue sp L, writers = [], wrote = []\<rparr>"

fun step :: "event \<Rightarrow> system \<Rightarrow> system" where
  "step (EvSend c dat t1 t2 t3) s = s\<lparr>queue := fst (Send (queue s) c dat t1 t2 t3)\<rparr>"
| "step (EvWriterBegin r) s =
     (if snd (sendToSerial_begin (queue s) r)
      then s\<lparr>queue := fst (sendToSerial_begin (queue s) r),
             writers := r # writers s, wrote := wrote s @ [r]\<rparr>
      else s\<lparr>queue := fst (sendToSerial_begin (queue s) r)\<rparr>)"
| "step (EvWriterEnd r err now) s =
     (if r \<in> set (writers s)
      then s\<lparr>queue := fst (sendToSerial_end (queue s) r err now),
             writers := remove1 r (writers s)\<rparr>
      else s)"
| "step (EvSerialData dat now tlog) s = s\<lparr>queue := OnSerialData (queue s) dat now tlog\<rparr>"
| "step (EvFlush now tset) s = s\<lparr>queue := fst (flushResponseLoop_fired (queue s) now tset)\<rparr>"
| "step (EvCleanup tc now) s = s\<lparr>queue := fst (WriteQueue_CleanupExpired (queue s) tc now)\<rparr>"
| "step EvStop s = s\<lparr>queue := StopCleanupTimer (queue s)\<rparr>"

definition run :: "event list \<Rightarrow> system \<Rightarrow> system" where
  "run es s = fold step es s"

text \<open>
  What holds of the writes in every reachable state. No request is written twice; a
  request the queue holds has been written only if it is the head and the state is not
  idle, and whenever the state is not idle the head has been written; the response buffer
  is filled only in state waiting; a goroutine between the two critical sections whose
  request is still the head finds the state sending; and the port has received, after what
  it held at the start, the payloads of the written requests in order.
\<close>

definition write_inv :: "byte list list option \<Rightarrow> system \<Rightarrow> bool" where
  "write_inv sp s =
     (distinct (wrote s) \<and> distinct (writers s) \<and> set (writers s) \<subseteq> set (wrote s) \<and>
      (\<forall>r \<in> set (wrote s). r < heapNext (queue s)) \<and>
      (\<forall>r \<in> set (tracked (queue s)). r \<in> set (wrote s) \<longrightarrow>
         pending (queue s) \<noteq> [] \<and> r = hd (pending (queue s)) \<and>
         respState (queue s) \<noteq> respStateIdle) \<and>
      (respState (queue s) \<noteq> respStateIdle \<longrightarrow>
         pending (queue s) \<noteq> [] \<and> hd (pending (queue s)) \<in> set (wrote s)) \<and>
      (respBuf (queue s) \<noteq> [] \<longrightarrow> respState (queue s) = respStateWaiting) \<and>
      (\<forall>r \<in> set (writers s). pending (queue s) \<noteq> [] \<and> hd (pending (queue s)) = r \<longrightarrow>
         respState (queue s) = respStateSending) \<and>
      serial (queue s) =
        map_option (\<lambda>L0. L0 @ map (\<lambda>r. Request (heap (queue s) r)) (wrote s)) sp)"

subsection \<open>Example states\<close>

text \<open>
  Scenario S1 of the specification: a queue whose only request, with payload
  \<open>68 03 03\<close>, was written at time \<open>s\<close> and has the frame \<open>AA BB\<close> in the response
  buffer.
\<close>

definition sentQueue :: "time \<Rightarrow> WriteQueue" where
  "sentQueue s =
     (NewWriteQueue (Some [ [0x68, 3, 3] ]) emptyLog)
       \<lparr>pending := [0], heapNext := 1, nextReqID := 1, currentReqID := 1,
        respState := respStateWaiting, respBuf := [0xAA, 0xBB],
        inflight := Map.empty(hashData [0x68, 3, 3] \<mapsto> 0),
        heap := (\<lambda>_. zeroRequest)
          (0 := \<lparr>ID = 1, ClientID = ''c1'', DataHash = hashData [0x68, 3, 3],
                 Request = [0x68, 3, 3], ResponseCh = make_chan,
                 Timestamp = s - 5, SentAt = s, done_flag = False\<rparr>)\<rparr>"

text \<open>
  Scenario S2: c1 submits \<open>01 02\<close> and c2 submits the same bytes 5 ms later; the
  request is written, and the device answers \<open>FF\<close>.
\<close>

definition dedupAccepted :: "event list" where
  "dedupAccepted = [EvSend ''c1'' [1, 2] 1000 1000 1000]"

definition dedupAnswered :: "event list" where
  "dedupAnswered =
     [EvSend ''c1'' [1, 2] 1000 1000 1000,
      EvSend ''c2'' [1, 2] (1000 + 5 * Millisecond) (1000 + 5 * Millisecond) (1000 + 5 * Millisecond),
      EvWriterBegin 0,
      EvWriterEnd 0 False (1000 + 6 * Millisecond),
      EvSerialData [0xFF] (1000 + 20 * Millisecond) (1000 + 20 * Millisecond)]"


text \<open>
  Scenario S4: one request is accepted at time 1000 and written, the device stays silent,
  and the reaper runs four seconds later.
\<close>

definition reapedQueue :: WriteQueue where
  "reapedQueue =
     fst (WriteQueue_CleanupExpired
            (fst (sendToSerial
                    (fst (Send (NewWriteQueue (Some []) emptyLog) ''c1'' [0xAA] 1000 1000 1000))
                    0 False 1001))
            (1000 + 4 * Second) (1000 + 4 * Second))"


text \<open>
  Three requests accepted in a row: \<open>11\<close> from c1, which becomes the head, \<open>11\<close> again
  from c2, which waits on it, and \<open>22\<close> from c3, queued behind; then the writer for the
  head has begun.
\<close>

definition threeSent :: WriteQueue where
  "threeSent =
     fst (Send (fst (Send (fst (Send (NewWriteQueue (Some []) emptyLog) ''c1'' [0x11] 1000 1000 1000))
                      ''c2'' [0x11] 1001 1001 1001))
            ''c3'' [0x22] 1002 1002 1002)"

definition headWriting :: WriteQueue where
  "headWriting = fst (sendToSerial_begin threeSent 0)"

text \<open>
  Three requests with different payloads, accepted at 1000 ns and then 2 s and 2.5 s
  later; none has been written.
\<close>

definition threeQueued :: WriteQueue where
  "threeQueued =
     fst (Send (fst (Send (fst (Send (NewWriteQueue None emptyLog) ''c1'' [1] 1000 1000 1000))
                      ''c2'' [2] (1000 + 2 * Second) (1000 + 2 * Second) (1000 + 2 * Second)))
            ''c3'' [3] (1000 + 2500 * Millisecond) (1000 + 2500 * Millisecond)
              (1000 + 2500 * Millisecond))"

section \<open>Unfolding the operations on concrete states\<close>

lemmas eval_defs =
  Send_def sendToSerial_def sendToSerial_begin_def sendToSerial_end_def OnSerialData_def
  flushResponseLocked_def flushResponseLoop_fired_def
  WriteQueue_CleanupExpired_def cleanupLocked_def cleanupPendingStep_def
  cleanupWaitingStep_def waiterAlive_def finishExpired_def
  StopCleanupTimer_def StartCleanupTimer_turn_def flushResponseLoop_turn_def
  NewWriteQueue_def emptyLog_def NewRequestCache_def RequestCache_Get_def RequestCache_CleanupExpired_def
  SetWithTTL_def waitingList_of_def deleteClients_def finishAll_def nextHead_def
  finishNoResponse_def finishWithResponse_def make_chan_def chan_send_def chan_close_def
  received_def logIssuef_def logIssuefThrottled_def
  IsZero_def After_def Before_def Add_def Sub_def mulDuration_def
  requestTimeout_def Second_def Millisecond_def maxDuration_def minDuration_def
  hashData_def offset64_def prime64_def Let_def

section \<open>The fingerprint is FNV-1a\<close>

lemma unat_ucast_byte: "unat (ucast (b :: byte) :: u64) = unat b"
proof -
  have "unat b < 2 ^ 8"
    using unsigned_less [of b, where ?'a = nat] by simp
  then have "unat b < 2 ^ 64"
    by (rule less_le_trans) simp
  then show ?thesis
    by (simp add: unsigned_ucast_eq take_bit_nat_eq_self)
qed

lemma unat_xor_ucast: "unat ((h :: u64) XOR ucast (b :: byte)) = unat h XOR unat b"
  by (simp add: unsigned_xor_eq unat_ucast_byte)

lemma hashLoop_spec:
  "unat (hashLoop h bs) =
     foldl (\<lambda>h b. ((h XOR b) * 1099511628211) mod 2 ^ 64) (unat h) (map unat bs)"
proof (induction bs arbitrary: h)
  case Nil
  show ?case by simp
next
  case (Cons b bs)
  have "unat ((h XOR ucast b) * prime64) = ((unat h XOR unat b) * 1099511628211) mod 2 ^ 64"
    by (simp add: unat_word_ariths unat_xor_ucast prime64_def)
  with Cons show ?case by simp
qed

lemma Send_hash_only:
  assumes "hashData dat = hashData dat'"
  shows "forgetPayload (fst (Send q c dat t1 t2 t3)) = forgetPayload (fst (Send q c dat' t1 t2 t3))
     \<and> snd (Send q c dat t1 t2 t3) = snd (Send q c dat' t1 t2 t3)"
  using assms
  by (auto simp: Send_def Let_def forgetPayload_def fun_eq_iff split: option.splits)

text \<open>
  Claim C8. \<^verbatim>\<open>hashData\<close> computes the 64-bit FNV-1a hash of the payload bytes: offset
  basis 14695981039346656037, prime 1099511628211, each byte XORed in and the hash then
  multiplied, modulo \<open>2^64\<close>. Equal byte sequences have equal fingerprints, and \<^verbatim>\<open>Send\<close>
  looks at the payload through its fingerprint only: two payloads with the same fingerprint
  are routed alike, the two resulting queues differing at most in the payload bytes stored
  in the new request.
\<close>

theorem hashData_fnv1a_sole_identity:
  "unat (hashData dat) = fnv1a64_spec (map unat dat) \<and>
   (dat = dat' \<longrightarrow> hashData dat = hashData dat') \<and>
   (hashData dat = hashData dat' \<longrightarrow>
      forgetPayload (fst (Send q c dat t1 t2 t3)) = forgetPayload (fst (Send q c dat' t1 t2 t3)) \<and>
      snd (Send q c dat t1 t2 t3) = snd (Send q c dat' t1 t2 t3))"
  using Send_hash_only [of dat dat' q c t1 t2 t3]
  by (simp add: hashData_def fnv1a64_spec_def hashLoop_spec offset64_def)

theorem hashData_fnv1a_sole_identity_witness:
  "unat (hashData [0x61]) = fnv1a64_spec (map unat [0x61 :: byte]) \<and>
   hashData [0x61] = 0xaf63dc4c8601ec8c \<and>
   forgetPayload (fst (Send (NewWriteQueue None emptyLog) ''c1'' [0x61] 1 2 3)) =
     forgetPayload (fst (Send (NewWriteQueue None emptyLog) ''c1'' [0x61] 1 2 3)) \<and>
   snd (Send (NewWriteQueue None emptyLog) ''c1'' [0x61] 1 2 3) =
     snd (Send (NewWriteQueue None emptyLog) ''c1'' [0x61] 1 2 3)"
  using hashData_fnv1a_sole_identity [of "[0x61]" "[0x61]" "NewWriteQueue None emptyLog" "''c1''" 1 2 3]
  by (simp add: hashData_def offset64_def prime64_def)

section \<open>The cache sweep\<close>

text \<open>
  Claim C9, as stated, fails: an entry whose expiry is exactly \<open>now\<close> is not after
  \<open>now\<close>, and the sweep keeps it.
\<close>

theorem cache_sweep_keeps_entry_expiring_now:
  "RequestCache_CleanupExpired (Map.empty(5 \<mapsto> \<lparr>data = [1], expireAt = 10\<rparr>)) 10 5 =
     Some \<lparr>data = [1], expireAt = 10\<rparr>"
  by (simp add: RequestCache_CleanupExpired_def After_def)

text \<open>
  Claim C9, amended. The cache sweep removes exactly the entries whose expiry is strictly
  before \<open>now\<close>: after the sweep no entry with \<open>expireAt < now\<close> remains, every entry
  with \<open>expireAt \<ge> now\<close> is retained unchanged, and no entry is added.
\<close>

theorem cache_sweep_removes_strictly_expired:
  "(c h = Some e \<and> expireAt e < now \<longrightarrow> RequestCache_CleanupExpired c now h = None) \<and>
   (c h = Some e \<and> now \<le> expireAt e \<longrightarrow> RequestCache_CleanupExpired c now h = Some e) \<and>
   (c h = None \<longrightarrow> RequestCache_CleanupExpired c now h = None)"
  by (simp add: RequestCache_CleanupExpired_def After_def)

theorem cache_sweep_removes_strictly_expired_witness:
  "RequestCache_CleanupExpired
      (Map.empty(5 \<mapsto> \<lparr>data = [1], expireAt = 10\<rparr>, 6 \<mapsto> \<lparr>data = [2], expireAt = 20\<rparr>)) 11 5 = None \<and>
   RequestCache_CleanupExpired
      (Map.empty(5 \<mapsto> \<lparr>data = [1], expireAt = 10\<rparr>, 6 \<mapsto> \<lparr>data = [2], expireAt = 20\<rparr>)) 11 6 =
      Some \<lparr>data = [2], expireAt = 20\<rparr> \<and>
   RequestCache_CleanupExpired
      (Map.empty(5 \<mapsto> \<lparr>data = [1], expireAt = 10\<rparr>, 6 \<mapsto> \<lparr>data = [2], expireAt = 20\<rparr>)) 11 7 = None"
  using
    cache_sweep_removes_strictly_expired
      [of "Map.empty(5 \<mapsto> \<lparr>data = [1], expireAt = 10\<rparr>, 6 \<mapsto> \<lparr>data = [2], expireAt = 20\<rparr>)"
          5 "\<lparr>data = [1], expireAt = 10\<rparr>" 11]
    cache_sweep_removes_strictly_expired
      [of "Map.empty(5 \<mapsto> \<lparr>data = [1], expireAt = 10\<rparr>, 6 \<mapsto> \<lparr>data = [2], expireAt = 20\<rparr>)"
          6 "\<lparr>data = [2], expireAt = 20\<rparr>" 11]
    cache_sweep_removes_strictly_expired
      [of "Map.empty(5 \<mapsto> \<lparr>data = [1], expireAt = 10\<rparr>, 6 \<mapsto> \<lparr>data = [2], expireAt = 20\<rparr>)"
          7 "\<lparr>data = [1], expireAt = 10\<rparr>" 11]
  by simp

section \<open>A cache hit in Send\<close>

text \<open>
  Claim C5. If the cache holds an entry for the payload's fingerprint that is not expired
  at the first lookup of \<^verbatim>\<open>Send\<close>, or at its lookup under the lock, then \<^verbatim>\<open>Send\<close> returns
  a channel already resolved with the cached bytes, starts no writer, writes nothing to
  the port and leaves the whole queue state as it was: queue, inflight index, waiter map,
  client index, \<^verbatim>\<open>currentReqID\<close> and \<^verbatim>\<open>respState\<close> included.
\<close>

theorem Send_cache_hit:
  assumes "cache q (hashData dat) = Some e"
      and "\<not> After t1 (expireAt e) \<or> \<not> After t2 (expireAt e)"
  shows "Send q c dat t1 t2 t3 =
           (q, Resolved \<lparr>buf = [data e], closed = True, fault = False\<rparr>, None)"
  using assms
  by (auto simp: Send_def Let_def RequestCache_Get_def make_chan_def chan_send_def chan_close_def)

theorem Send_cache_hit_witness:
  "Send ((NewWriteQueue (Some []) emptyLog)\<lparr>cache := Map.empty(hashData [1, 2] \<mapsto> \<lparr>data = [0xFF], expireAt = 10\<rparr>)\<rparr>)
        ''c3'' [1, 2] 7 8 9 =
     ((NewWriteQueue (Some []) emptyLog)\<lparr>cache := Map.empty(hashData [1, 2] \<mapsto> \<lparr>data = [0xFF], expireAt = 10\<rparr>)\<rparr>,
      Resolved \<lparr>buf = [ [0xFF] ], closed = True, fault = False\<rparr>, None)"
  using Send_cache_hit
    [of "(NewWriteQueue (Some []) emptyLog)\<lparr>cache := Map.empty(hashData [1, 2] \<mapsto> \<lparr>data = [0xFF], expireAt = 10\<rparr>)\<rparr>"
        "[1, 2]" "\<lparr>data = [0xFF], expireAt = 10\<rparr>" 7 8 "''c3''" 9]
  by (simp add: After_def)

section \<open>The adaptive time to live\<close>

lemma mulDuration_2: "0 \<le> a \<Longrightarrow> a < 2 ^ 62 \<Longrightarrow> mulDuration a 2 = 2 * a"
  by (simp add: mulDuration_def)

lemma flush_cacheTTL:
  assumes "now - s < 2 ^ 62"
  shows "(let rtt0 = Sub now s;
              rtt = (if rtt0 < 0 then 0 else rtt0);
              cacheTTL0 = mulDuration rtt 2
          in if cacheTTL0 < Second then Second
             else if cacheTTL0 > 30 * Second then 30 * Second
             else cacheTTL0) =
         clamp (2 * max 0 (now - s)) Second (30 * Second)"
proof -
  have rtt: "(if Sub now s < 0 then 0 else Sub now s) = max 0 (now - s)"
    using assms by (simp add: Sub_def maxDuration_def minDuration_def max_def)
  have "mulDuration (max 0 (now - s)) 2 = 2 * max 0 (now - s)"
    using assms by (intro mulDuration_2) auto
  with rtt show ?thesis
    by (simp add: Let_def clamp_def)
qed

text \<open>
  Claim C7. When the flush completes the head request, whose \<^verbatim>\<open>SentAt\<close> is set, the
  round-trip time is \<open>max 0 (now - SentAt)\<close>, and the entry stored in the cache for the
  head's fingerprint holds the response bytes and expires \<open>clamp (2 * RTT) 1s 30s\<close> after
  the clock reading of the store. The interval \<open>now - SentAt\<close> is taken below \<open>2^62\<close>
  nanoseconds (146 years), the range in which doubling a Duration does not wrap around.
\<close>

theorem flush_cache_ttl:
  assumes "pending q \<noteq> []" and "respBuf q \<noteq> []"
      and "req = heap q (hd (pending q))"
      and "\<not> IsZero (SentAt req)"
      and "now - SentAt req < 2 ^ 62"
      and "RTT = max 0 (now - SentAt req)"
  shows "cache (fst (flushResponseLocked q now tset)) (DataHash req) =
           Some \<lparr>data = respBuf q, expireAt = Add tset (clamp (2 * RTT) Second (30 * Second))\<rparr>"
proof -
  have "cache (fst (flushResponseLocked q now tset)) (DataHash req) =
          Some \<lparr>data = respBuf q,
                expireAt = Add tset
                  (let rtt0 = Sub now (SentAt req);
                       rtt = (if rtt0 < 0 then 0 else rtt0);
                       cacheTTL0 = mulDuration rtt 2
                   in if cacheTTL0 < Second then Second
                      else if cacheTTL0 > 30 * Second then 30 * Second
                      else cacheTTL0)\<rparr>"
    using assms(1-4) by (simp add: flushResponseLocked_def Let_def SetWithTTL_def)
  then show ?thesis
    using flush_cacheTTL [OF assms(5)] assms(6) by simp
qed

theorem flush_cache_ttl_witness:
  "cache (fst (flushResponseLocked (sentQueue 1000) (1000 + 20 * Millisecond) (1001 + 20 * Millisecond)))
       (hashData [0x68, 3, 3]) =
     Some \<lparr>data = [0xAA, 0xBB], expireAt = 1001 + 20 * Millisecond + Second\<rparr> \<and>
   cache (fst (flushResponseLocked (sentQueue 1000) (1000 + 3 * Second) (1001 + 3 * Second)))
       (hashData [0x68, 3, 3]) =
     Some \<lparr>data = [0xAA, 0xBB], expireAt = 1001 + 3 * Second + 6 * Second\<rparr>"
  using
    flush_cache_ttl [of "sentQueue 1000" "heap (sentQueue 1000) 0" "1000 + 20 * Millisecond"
      "20 * Millisecond" "1001 + 20 * Millisecond"]
    flush_cache_ttl [of "sentQueue 1000" "heap (sentQueue 1000) 0" "1000 + 3 * Second"
      "3 * Second" "1001 + 3 * Second"]
  by (simp add: sentQueue_def NewWriteQueue_def IsZero_def Millisecond_def Second_def
      clamp_def Add_def)

section \<open>Finishing requests\<close>

lemma finish_idem: "finish f (finish g r) = finish g r"
  by (cases f; cases g) (simp_all add: finishWithResponse_def finishNoResponse_def)

lemma finishAll_apply:
  "finishAll f rs h x = (if x \<in> set rs then finish f (h x) else h x)"
  unfolding finishAll_def
  by (induction rs arbitrary: h) (auto simp: finish_idem)

lemma deleteClients_apply:
  "deleteClients h ws ci c = (if c \<in> (\<lambda>w. ClientID (h w)) ` set ws then None else ci c)"
  unfolding deleteClients_def
  by (induction ws arbitrary: ci) auto

lemma received_finishNoResponse:
  "\<not> done_flag r \<Longrightarrow> ResponseCh r = make_chan \<Longrightarrow>
     received (ResponseCh (finishNoResponse r)) = Some NoResponse"
  by (simp add: finishNoResponse_def make_chan_def chan_close_def received_def)

lemma received_finishWithResponse:
  "\<not> done_flag r \<Longrightarrow> ResponseCh r = make_chan \<Longrightarrow>
     received (ResponseCh (finishWithResponse r dat)) = Some (Delivered dat)"
  by (simp add: finishWithResponse_def make_chan_def chan_close_def chan_send_def received_def)

lemma map_of_delete: "map_of (AList.delete k al) = (map_of al)(k := None)"
  by (rule ext) (simp add: delete_conv')

section \<open>Write failure\<close>

text \<open>
  Claim C6. When the write of the head request \<open>req\<close> has failed, the second critical
  section of \<^verbatim>\<open>sendToSerial\<close> removes the head from the queue, its fingerprint from the
  inflight index and from the waiter map, and the clients of the head and of all its
  waiters from the client index; it resets the state to idle with \<^verbatim>\<open>currentReqID = 0\<close> and
  sets \<^verbatim>\<open>dropUntil\<close> to \<open>now + 150 ms\<close>. \<^verbatim>\<open>finishNoResponse\<close> is then applied to the head
  and to every waiter, which gives each of them that was still open the no-response
  outcome, and a writer is started for the next head if there is one.
\<close>

theorem write_failure:
  assumes "pending q = req # rest"
      and "hash = DataHash (heap q req)"
      and "ws = waitingList_of (waiting q) hash"
      and "q' = fst (sendToSerial_end q req True now)"
      and "nextReq = snd (sendToSerial_end q req True now)"
  shows "pending q' = rest \<and>
         inflight q' = (inflight q)(hash := None) \<and>
         map_of (waiting q') = (map_of (waiting q))(hash := None) \<and>
         (\<forall>x \<in> set (req # ws). clientIndex q' (ClientID (heap q x)) = None) \<and>
         respState q' = respStateIdle \<and> currentReqID q' = 0 \<and>
         dropUntil q' = Add now (150 * Millisecond) \<and>
         (\<forall>x \<in> set (req # ws). heap q' x = finishNoResponse (heap q x)) \<and>
         (\<forall>x \<in> set (req # ws).
            \<not> done_flag (heap q x) \<and> ResponseCh (heap q x) = make_chan \<longrightarrow>
            received (ResponseCh (heap q' x)) = Some NoResponse) \<and>
         nextReq = (case rest of [] \<Rightarrow> None | n # _ \<Rightarrow> Some n)"
proof -
  have heap': "heap q' = finishAll WithoutResponse (req # ws) (heap q)"
    using assms by (simp add: sendToSerial_end_def Let_def)
  have fin: "\<forall>x \<in> set (req # ws). heap q' x = finishNoResponse (heap q x)"
    unfolding heap' by (simp add: finishAll_apply)
  have ci: "clientIndex q' =
      deleteClients (heap q) ws ((clientIndex q)(ClientID (heap q req) := None))"
    using assms by (simp add: sendToSerial_end_def Let_def)
  have ci': "\<forall>x \<in> set (req # ws). clientIndex q' (ClientID (heap q x)) = None"
    unfolding ci by (auto simp: deleteClients_apply)
  have rest: "pending q' = rest" "inflight q' = (inflight q)(hash := None)"
    "map_of (waiting q') = (map_of (waiting q))(hash := None)"
    "respState q' = respStateIdle" "currentReqID q' = 0"
    "dropUntil q' = Add now (150 * Millisecond)"
    "nextReq = (case rest of [] \<Rightarrow> None | n # _ \<Rightarrow> Some n)"
    using assms by (simp_all add: sendToSerial_end_def Let_def map_of_delete nextHead_def)
  from fin have "\<forall>x \<in> set (req # ws).
      \<not> done_flag (heap q x) \<and> ResponseCh (heap q x) = make_chan \<longrightarrow>
      received (ResponseCh (heap q' x)) = Some NoResponse"
    by (simp add: received_finishNoResponse)
  with fin ci' rest show ?thesis by blast
qed

lemma headWriting_eval:
  "pending headWriting = [0, 2]"
  "waiting headWriting = [(hashData [0x11], [1])]"
  "DataHash (heap headWriting 0) = hashData [0x11]"
  "respState headWriting = respStateSending"
  "serial headWriting = Some [ [0x11] ]"
  "ClientID (heap headWriting 0) = ''c1''"
  "ClientID (heap headWriting (Suc 0)) = ''c2''"
  "done_flag (heap headWriting 0) = False"
  "done_flag (heap headWriting (Suc 0)) = False"
  "ResponseCh (heap headWriting 0) = make_chan"
  "ResponseCh (heap headWriting (Suc 0)) = make_chan"
  by (simp_all add: headWriting_def threeSent_def eval_defs)

theorem write_failure_witness:
  "pending (fst (sendToSerial_end headWriting 0 True 2000)) = [2] \<and>
   inflight (fst (sendToSerial_end headWriting 0 True 2000)) (hashData [0x11]) = None \<and>
   map_of (waiting (fst (sendToSerial_end headWriting 0 True 2000))) (hashData [0x11]) = None \<and>
   clientIndex (fst (sendToSerial_end headWriting 0 True 2000)) ''c1'' = None \<and>
   clientIndex (fst (sendToSerial_end headWriting 0 True 2000)) ''c2'' = None \<and>
   respState (fst (sendToSerial_end headWriting 0 True 2000)) = respStateIdle \<and>
   currentReqID (fst (sendToSerial_end headWriting 0 True 2000)) = 0 \<and>
   dropUntil (fst (sendToSerial_end headWriting 0 True 2000)) = 2000 + 150 * Millisecond \<and>
   received (ResponseCh (heap (fst (sendToSerial_end headWriting 0 True 2000)) 0)) = Some NoResponse \<and>
   received (ResponseCh (heap (fst (sendToSerial_end headWriting 0 True 2000)) 1)) = Some NoResponse \<and>
   snd (sendToSerial_end headWriting 0 True 2000) = Some 2"
  using write_failure [of headWriting 0 "[2]" "hashData [0x11]" "[1]"
      "fst (sendToSerial_end headWriting 0 True 2000)" 2000
      "snd (sendToSerial_end headWriting 0 True 2000)"]
  by (simp add: headWriting_eval waitingList_of_def Add_def received_finishNoResponse)

section \<open>Dropped device bytes\<close>

text \<open>
  Claim C4, as stated, fails. In scenario S4 the reaper has just dropped the only request,
  which was written and never answered: the state is idle and the drop window is open.
  Bytes that arrive 10 ms later are dropped, and the drop is written to the issue log.
\<close>

theorem drop_in_window_is_logged:
  "Before (1000 + 4 * Second + 10 * Millisecond) (dropUntil reapedQueue) \<and>
   respState reapedQueue = respStateIdle \<and>
   lines (issues (OnSerialData reapedQueue [1]
            (1000 + 4 * Second + 10 * Millisecond) (1000 + 4 * Second + 10 * Millisecond))) =
     lines (issues reapedQueue) @ [''drop rx: state=%d bytes=%d'']"
  by (simp add: reapedQueue_def eval_defs)

lemma logIssuefThrottled_lines:
  "(\<forall>t. issueThrottleLast L key = Some t \<longrightarrow> IsZero t \<or> interval \<le> Sub now t) \<Longrightarrow>
   lines (logIssuefThrottled L key interval line now) = lines L @ [line]"
  by (auto simp: logIssuefThrottled_def logIssuef_def Let_def IsZero_def split: option.splits)

text \<open>
  Claim C4, amended. While \<open>now < dropUntil\<close>, device bytes that do not belong to the
  current head (the state is not waiting, or the queue is empty, or the head's ID is not
  \<^verbatim>\<open>currentReqID\<close>, or the head's \<^verbatim>\<open>SentAt\<close> is unset) are dropped: nothing is accumulated
  and nothing of the queue changes. Each such drop is reported to the throttled issue log,
  under the tag \<^verbatim>\<open>drop_state\<close>, \<^verbatim>\<open>drop_no_pending\<close>, \<^verbatim>\<open>drop_until\<close> or \<^verbatim>\<open>drop_unsent\<close>
  respectively, and the log records it unless it recorded an event of the same tag less
  than one second before.
\<close>

theorem OnSerialData_drop_reported:
  assumes "Before now (dropUntil q)"
      and "respState q \<noteq> respStateWaiting \<or> pending q = [] \<or>
           ID (heap q (hd (pending q))) \<noteq> currentReqID q \<or>
           IsZero (SentAt (heap q (hd (pending q))))"
  shows "OnSerialData q dat now tlog =
           q\<lparr>issues := logIssuefThrottled (issues q) (discardTag q) Second (discardLine q) tlog\<rparr> \<and>
         ((\<forall>t. issueThrottleLast (issues q) (discardTag q) = Some t \<longrightarrow>
                IsZero t \<or> Second \<le> Sub tlog t) \<longrightarrow>
            lines (issues (OnSerialData q dat now tlog)) = lines (issues q) @ [discardLine q])"
proof -
  have eq: "OnSerialData q dat now tlog =
      q\<lparr>issues := logIssuefThrottled (issues q) (discardTag q) Second (discardLine q) tlog\<rparr>"
    using assms by (auto simp: OnSerialData_def Let_def discardTag_def discardLine_def)
  show ?thesis unfolding eq by (simp add: logIssuefThrottled_lines)
qed

lemma reapedQueue_eval:
  "Before (1000 + 4 * Second + 10 * Millisecond) (dropUntil reapedQueue)"
  "respState reapedQueue = respStateIdle"
  "issueThrottleLast (issues reapedQueue) = Map.empty"
  by (simp_all add: reapedQueue_def eval_defs)

theorem OnSerialData_drop_reported_witness:
  "OnSerialData reapedQueue [1]
       (1000 + 4 * Second + 10 * Millisecond) (1000 + 4 * Second + 11 * Millisecond) =
     reapedQueue\<lparr>issues := logIssuefThrottled (issues reapedQueue) ''drop_state'' Second
        ''drop rx: state=%d bytes=%d'' (1000 + 4 * Second + 11 * Millisecond)\<rparr> \<and>
   lines (issues (OnSerialData reapedQueue [1]
       (1000 + 4 * Second + 10 * Millisecond) (1000 + 4 * Second + 11 * Millisecond))) =
     lines (issues reapedQueue) @ [''drop rx: state=%d bytes=%d'']"
  using OnSerialData_drop_reported [of "1000 + 4 * Second + 10 * Millisecond" reapedQueue "[1]"
      "1000 + 4 * Second + 11 * Millisecond"]
  by (simp add: reapedQueue_eval discardTag_def discardLine_def logIssuefThrottled_lines)

section \<open>The two passes of the reaper\<close>

lemma Sub_less_requestTimeout: "Sub t u < requestTimeout \<longleftrightarrow> t - u < 3 * Second"
  by (simp add: Sub_def requestTimeout_def Second_def maxDuration_def minDuration_def)

lemma survives_iff:
  "survives q now r \<longleftrightarrow>
     Sub now (if IsZero (SentAt (heap q r)) then Timestamp (heap q r) else SentAt (heap q r))
       < requestTimeout"
  by (auto simp: survives_def isExpired_def Sub_less_requestTimeout)

lemma sameButMaps_refl: "sameButMaps q q"
  by (simp add: sameButMaps_def)

lemma sameButMaps_trans: "sameButMaps q q' \<Longrightarrow> sameButMaps q' q'' \<Longrightarrow> sameButMaps q q''"
  by (simp add: sameButMaps_def)

lemma sameButMaps_fields:
  assumes "sameButMaps q q'"
  shows "heap q' = heap q" "heapNext q' = heapNext q" "pending q' = pending q"
    "respState q' = respState q" "currentReqID q' = currentReqID q" "respBuf q' = respBuf q"
    "cache q' = cache q" "serial q' = serial q" "dropUntil q' = dropUntil q"
    "issues q' = issues q" "nextReqID q' = nextReqID q" "respTimer q' = respTimer q"
  using assms by (simp_all add: sameButMaps_def)

lemma cleanupPendingStep_frame: "sameButMaps (fst ql) (fst (cleanupPendingStep now i r ql))"
  by (cases "map_of (waiting (fst ql)) (DataHash (heap (fst ql) r))")
     (simp_all add: cleanupPendingStep_def Let_def sameButMaps_def)

lemma cleanupPendingStep_heap [simp]: "heap (fst (cleanupPendingStep now i r ql)) = heap (fst ql)"
  using cleanupPendingStep_frame [of ql now i r] by (simp add: sameButMaps_fields)

lemma cleanupPending_frame: "sameButMaps (fst ql) (fst (cleanupPending now i rs ql))"
proof (induction rs arbitrary: i ql)
  case Nil
  show ?case by (simp add: sameButMaps_refl)
next
  case (Cons r rs)
  show ?case
    using sameButMaps_trans [OF cleanupPendingStep_frame Cons] by simp
qed

lemma cleanupPending_heap [simp]: "heap (fst (cleanupPending now i rs ql)) = heap (fst ql)"
  using cleanupPending_frame [of ql now i rs] by (simp add: sameButMaps_fields)

lemma cleanupPendingStep_active:
  "active (snd (cleanupPendingStep now i r ql)) =
     active (snd ql) @ (if survives (fst ql) now r then [r] else [])"
  by (cases "map_of (waiting (fst ql)) (DataHash (heap (fst ql) r))")
     (simp_all add: cleanupPendingStep_def Let_def survives_iff)

lemma cleanupPending_active:
  "active (snd (cleanupPending now i rs ql)) = active (snd ql) @ filter (survives (fst ql) now) rs"
proof (induction rs arbitrary: i ql)
  case Nil
  show ?case by simp
next
  case (Cons r rs)
  have "survives (fst (cleanupPendingStep now i r ql)) now = survives (fst ql) now"
    by (rule ext) (simp add: survives_def)
  then show ?case
    by (simp add: Cons cleanupPendingStep_active)
qed

lemma cleanupPendingStep_first:
  "firstWasExpired (snd (cleanupPendingStep now i r ql)) =
     (firstWasExpired (snd ql) \<or> (i = 0 \<and> \<not> survives (fst ql) now r))"
  by (cases "map_of (waiting (fst ql)) (DataHash (heap (fst ql) r))")
     (simp_all add: cleanupPendingStep_def Let_def survives_iff)

lemma cleanupPending_first_Suc:
  "firstWasExpired (snd (cleanupPending now (Suc i) rs ql)) = firstWasExpired (snd ql)"
  by (induction rs arbitrary: i ql) (simp_all add: cleanupPendingStep_first)

lemma cleanupPending_first:
  "firstWasExpired (snd (cleanupPending now 0 rs ql)) =
     (firstWasExpired (snd ql) \<or> (rs \<noteq> [] \<and> \<not> survives (fst ql) now (hd rs)))"
  by (cases rs) (simp_all add: cleanupPending_first_Suc cleanupPendingStep_first)


lemma cleanupWaitingStep_frame:
  "sameButMaps (fst ql) (fst (cleanupWaitingStep now e ql))"
  by (simp add: cleanupWaitingStep_def Let_def sameButMaps_def)

lemma cleanupWaiting_frame:
  "sameButMaps (fst ql) (fst (fold (cleanupWaitingStep now) es ql))"
proof (induction es arbitrary: ql)
  case Nil
  show ?case by (simp add: sameButMaps_refl)
next
  case (Cons e es)
  show ?case
    using sameButMaps_trans [OF cleanupWaitingStep_frame Cons] by simp
qed

lemma cleanupWaitingStep_locals:
  "active (snd (cleanupWaitingStep now e ql)) = active (snd ql)"
  "firstWasExpired (snd (cleanupWaitingStep now e ql)) = firstWasExpired (snd ql)"
  by (simp_all add: cleanupWaitingStep_def Let_def)

lemma cleanupWaiting_locals:
  "active (snd (fold (cleanupWaitingStep now) es ql)) = active (snd ql)"
  "firstWasExpired (snd (fold (cleanupWaitingStep now) es ql)) = firstWasExpired (snd ql)"
  by (induction es arbitrary: ql) (simp_all add: cleanupWaitingStep_locals)

lemma cleanupLocked_first:
  "firstWasExpired (snd (cleanupLocked q tc now)) =
     (pending q \<noteq> [] \<and> \<not> survives q now (hd (pending q)))"
  by (simp add: cleanupLocked_def Let_def cleanupWaiting_locals cleanupPending_first
      survives_def)

lemma cleanupLocked_pending:
  "pending (fst (cleanupLocked q tc now)) = filter (survives q now) (pending q)"
proof -
  have "survives (q\<lparr>cache := RequestCache_CleanupExpired (cache q) tc\<rparr>) now = survives q now"
    by (rule ext) (simp add: survives_def)
  then show ?thesis
    by (simp add: cleanupLocked_def Let_def sameButMaps_fields [OF cleanupWaiting_frame]
        cleanupPending_active)
qed

lemma finishExpired_fold_fields:
  "pending (fold finishExpired rs q) = pending q"
  "respState (fold finishExpired rs q) = respState q"
  "currentReqID (fold finishExpired rs q) = currentReqID q"
  "respBuf (fold finishExpired rs q) = respBuf q"
  "heapNext (fold finishExpired rs q) = heapNext q"
  "waiting (fold finishExpired rs q) = waiting q"
  "inflight (fold finishExpired rs q) = inflight q"
  "clientIndex (fold finishExpired rs q) = clientIndex q"
  "cache (fold finishExpired rs q) = cache q"
  "serial (fold finishExpired rs q) = serial q"
  "dropUntil (fold finishExpired rs q) = dropUntil q"
  "nextReqID (fold finishExpired rs q) = nextReqID q"
  "respTimer (fold finishExpired rs q) = respTimer q"
  by (induction rs arbitrary: q) (simp_all add: finishExpired_def)

lemma finishExpired_fold_heap:
  "heap (fold finishExpired rs q) = finishAll WithoutResponse rs (heap q)"
  unfolding finishAll_def
  by (induction rs arbitrary: q) (simp_all add: finishExpired_def)

lemma nextHead_filter: "nextHead (filter P xs) = List.find P xs"
  by (induction xs) (simp_all add: nextHead_def)

text \<open>
  Claim C10. After \<^verbatim>\<open>CleanupExpired\<close> the pending queue is the previous queue with the
  expired requests deleted and the others in their previous order; its head is therefore
  the first request of the previous queue that survives. \<^verbatim>\<open>Send\<close> only ever appends at
  the tail, so the order of the queue is the order of acceptance.
\<close>

theorem reaper_keeps_order:
  "pending (fst (WriteQueue_CleanupExpired q tc now)) = filter (survives q now) (pending q) \<and>
   nextHead (pending (fst (WriteQueue_CleanupExpired q tc now))) =
     List.find (survives q now) (pending q) \<and>
   (\<exists>new. pending (fst (Send q c dat t1 t2 t3)) = pending q @ new)"
proof -
  have 1: "pending (fst (WriteQueue_CleanupExpired q tc now)) = filter (survives q now) (pending q)"
    by (simp add: WriteQueue_CleanupExpired_def Let_def finishExpired_fold_fields
        cleanupLocked_pending)
  have 2: "\<exists>new. pending (fst (Send q c dat t1 t2 t3)) = pending q @ new"
    by (auto simp: Send_def Let_def split: option.splits)
  from 1 2 show ?thesis by (simp add: nextHead_filter)
qed


lemma threeQueued_eval:
  "pending threeQueued = [0, 1, 2]"
  "survives threeQueued (1000 + 3200 * Millisecond) 0 = False"
  "survives threeQueued (1000 + 3200 * Millisecond) (Suc 0) = True"
  "survives threeQueued (1000 + 3200 * Millisecond) 2 = True"
  by (simp_all add: threeQueued_def survives_def isExpired_def eval_defs)

theorem reaper_keeps_order_witness:
  "pending (fst (WriteQueue_CleanupExpired threeQueued (1000 + 3200 * Millisecond)
      (1000 + 3200 * Millisecond))) = [1, 2] \<and>
   nextHead (pending (fst (WriteQueue_CleanupExpired threeQueued (1000 + 3200 * Millisecond)
      (1000 + 3200 * Millisecond)))) = Some 1"
  using reaper_keeps_order [of threeQueued "1000 + 3200 * Millisecond"
      "1000 + 3200 * Millisecond" "''c4''" "[4]" 5000 5000 5000]
  by (simp add: threeQueued_eval nextHead_def)

section \<open>State coherence\<close>

lemma finish_fields [simp]:
  "ID (finish f r) = ID r" "SentAt (finish f r) = SentAt r" "Timestamp (finish f r) = Timestamp r"
  "DataHash (finish f r) = DataHash r" "ClientID (finish f r) = ClientID r"
  "Request (finish f r) = Request r"
  by (cases f; simp add: finishWithResponse_def finishNoResponse_def)+

lemma finishAll_fields [simp]:
  "ID (finishAll f rs h x) = ID (h x)" "SentAt (finishAll f rs h x) = SentAt (h x)"
  "Timestamp (finishAll f rs h x) = Timestamp (h x)"
  "DataHash (finishAll f rs h x) = DataHash (h x)"
  "ClientID (finishAll f rs h x) = ClientID (h x)"
  "Request (finishAll f rs h x) = Request (h x)"
  by (simp_all add: finishAll_apply)

lemma cleanupLocked_fields:
  defines "F q now \<equiv> pending q \<noteq> [] \<and> \<not> survives q now (hd (pending q))"
  shows "respState (fst (cleanupLocked q tc now)) = (if F q now then respStateIdle else respState q)"
    and "currentReqID (fst (cleanupLocked q tc now)) = (if F q now then 0 else currentReqID q)"
    and "respBuf (fst (cleanupLocked q tc now)) = (if F q now then [] else respBuf q)"
    and "dropUntil (fst (cleanupLocked q tc now)) =
           (if F q now then Add now (150 * Millisecond) else dropUntil q)"
    and "heap (fst (cleanupLocked q tc now)) = heap q"
    and "heapNext (fst (cleanupLocked q tc now)) = heapNext q"
    and "serial (fst (cleanupLocked q tc now)) = serial q"
    and "nextReqID (fst (cleanupLocked q tc now)) = nextReqID q"
    and "issues (fst (cleanupLocked q tc now)) = issues q"
    and "respTimer (fst (cleanupLocked q tc now)) = respTimer q"
    and "cache (fst (cleanupLocked q tc now)) = RequestCache_CleanupExpired (cache q) tc"
  using cleanupLocked_first [of q tc now]
  unfolding F_def
  by (simp_all add: cleanupLocked_def Let_def sameButMaps_fields [OF cleanupWaiting_frame]
      sameButMaps_fields [OF cleanupPending_frame])

lemma coherent_init: "coherent (NewWriteQueue sp L)"
  by (simp add: coherent_def NewWriteQueue_def)

lemma allocated_init: "allocated (NewWriteQueue sp L)"
  by (simp add: allocated_def NewWriteQueue_def)

lemma coherent_Send:
  assumes "coherent q" "allocated q"
  shows "coherent (fst (Send q c dat t1 t2 t3)) \<and> allocated (fst (Send q c dat t1 t2 t3))"
  using assms
  by (cases "pending q")
     (auto simp: Send_def Let_def coherent_def allocated_def split: option.splits)

lemma coherent_begin:
  assumes "coherent q" "allocated q"
  shows "coherent (fst (sendToSerial_begin q r)) \<and> allocated (fst (sendToSerial_begin q r))"
  using assms
  by (auto simp: sendToSerial_begin_def coherent_def allocated_def split: option.splits)

lemma coherent_end:
  assumes "coherent q" "allocated q" "\<not> IsZero now"
  shows "coherent (fst (sendToSerial_end q r err now)) \<and>
         allocated (fst (sendToSerial_end q r err now))"
  using assms
  by (cases "pending q")
     (auto simp: sendToSerial_end_def Let_def coherent_def allocated_def)

lemma coherent_OnSerialData:
  assumes "coherent q" "allocated q"
  shows "coherent (OnSerialData q dat now tlog) \<and> allocated (OnSerialData q dat now tlog)"
  using assms
  by (auto simp: OnSerialData_def Let_def coherent_def allocated_def)

lemma coherent_flush:
  assumes "coherent q" "allocated q"
  shows "coherent (fst (flushResponseLocked q now tset)) \<and>
         allocated (fst (flushResponseLocked q now tset))"
  using assms
  by (cases "pending q")
     (auto simp: flushResponseLocked_def Let_def coherent_def allocated_def)

lemma coherent_flushLoop:
  assumes "coherent q" "allocated q"
  shows "coherent (fst (flushResponseLoop_fired q now tset)) \<and>
         allocated (fst (flushResponseLoop_fired q now tset))"
  using assms coherent_flush [of q now tset]
  by (auto simp: flushResponseLoop_fired_def coherent_def allocated_def)

lemma hd_filter_keep: "xs \<noteq> [] \<Longrightarrow> P (hd xs) \<Longrightarrow> hd (filter P xs) = hd xs \<and> filter P xs \<noteq> []"
  by (cases xs) simp_all

lemma coherent_cleanup:
  assumes "coherent q" "allocated q"
  shows "coherent (fst (WriteQueue_CleanupExpired q tc now)) \<and>
         allocated (fst (WriteQueue_CleanupExpired q tc now))"
proof -
  let ?q' = "fst (WriteQueue_CleanupExpired q tc now)"
  let ?F = "pending q \<noteq> [] \<and> \<not> survives q now (hd (pending q))"
  have p: "pending ?q' = filter (survives q now) (pending q)"
    by (simp add: WriteQueue_CleanupExpired_def Let_def finishExpired_fold_fields
        cleanupLocked_pending)
  have st: "respState ?q' = (if ?F then respStateIdle else respState q)"
    and cur: "currentReqID ?q' = (if ?F then 0 else currentReqID q)"
    and hn: "heapNext ?q' = heapNext q"
    by (simp_all add: WriteQueue_CleanupExpired_def Let_def finishExpired_fold_fields
        cleanupLocked_fields)
  have h: "ID (heap ?q' x) = ID (heap q x)" "SentAt (heap ?q' x) = SentAt (heap q x)" for x
    by (simp_all add: WriteQueue_CleanupExpired_def Let_def finishExpired_fold_heap
        cleanupLocked_fields)
  have alloc: "allocated ?q'"
    using assms(2) by (simp add: allocated_def p hn)
  have "coherent ?q'"
  proof (cases ?F)
    case True
    then show ?thesis by (simp add: coherent_def st cur)
  next
    case False
    show ?thesis
    proof (cases "pending q = []")
      case True
      with assms(1) show ?thesis by (auto simp: coherent_def st cur p)
    next
      case False
      with \<open>\<not> ?F\<close> have "survives q now (hd (pending q))" by simp
      from hd_filter_keep [OF False, of "survives q now", OF this]
      show ?thesis using assms(1) \<open>\<not> ?F\<close> by (auto simp: coherent_def st cur p h)
    qed
  qed
  with alloc show ?thesis by simp
qed


lemma coherent_sendToSerial:
  assumes "coherent q" "allocated q" "\<not> IsZero now"
  shows "coherent (fst (sendToSerial q r err now)) \<and> allocated (fst (sendToSerial q r err now))"
proof -
  obtain q1 b where qb: "sendToSerial_begin q r = (q1, b)"
    by (cases "sendToSerial_begin q r")
  have inv1: "coherent q1 \<and> allocated q1"
    using coherent_begin [OF assms(1,2), of r] qb by simp
  show ?thesis
  proof (cases b)
    case True
    then have "sendToSerial q r err now = sendToSerial_end q1 r err now"
      by (simp add: sendToSerial_def qb)
    then show ?thesis
      using coherent_end [of q1 now r err] inv1 assms(3) by simp
  next
    case False
    then have "fst (sendToSerial q r err now) = q1"
      by (simp add: sendToSerial_def qb)
    then show ?thesis
      using inv1 by simp
  qed
qed

text \<open>
  Claim C2. State coherence holds in a new queue and is preserved by every operation:
  \<^verbatim>\<open>Send\<close>, both critical sections of \<^verbatim>\<open>sendToSerial\<close> and the whole call,
  \<^verbatim>\<open>OnSerialData\<close>, the flush and \<^verbatim>\<open>CleanupExpired\<close>, given that the pointers in the queue
  are allocated (which these operations preserve too) and that the clock never reads the
  zero Time. So whenever \<^verbatim>\<open>respState\<close> is waiting the queue is not empty, the head's
  \<^verbatim>\<open>SentAt\<close> is set and the head's ID is \<^verbatim>\<open>currentReqID\<close>, and whenever \<^verbatim>\<open>respState\<close> is idle
  \<^verbatim>\<open>currentReqID\<close> is 0.
\<close>

theorem coherence_preserved:
  "coherent (NewWriteQueue sp L) \<and> allocated (NewWriteQueue sp L) \<and>
   (coherent q \<and> allocated q \<longrightarrow>
      coherent (fst (Send q c dat t1 t2 t3)) \<and> allocated (fst (Send q c dat t1 t2 t3)) \<and>
      coherent (fst (sendToSerial_begin q r)) \<and> allocated (fst (sendToSerial_begin q r)) \<and>
      (\<not> IsZero now \<longrightarrow>
         coherent (fst (sendToSerial_end q r err now)) \<and>
         allocated (fst (sendToSerial_end q r err now)) \<and>
         coherent (fst (sendToSerial q r err now)) \<and>
         allocated (fst (sendToSerial q r err now))) \<and>
      coherent (OnSerialData q dat now tlog) \<and> allocated (OnSerialData q dat now tlog) \<and>
      coherent (fst (flushResponseLocked q now tset)) \<and>
      allocated (fst (flushResponseLocked q now tset)) \<and>
      coherent (fst (flushResponseLoop_fired q now tset)) \<and>
      allocated (fst (flushResponseLoop_fired q now tset)) \<and>
      coherent (fst (WriteQueue_CleanupExpired q tc now)) \<and>
      allocated (fst (WriteQueue_CleanupExpired q tc now)))"
  using coherent_init allocated_init coherent_Send coherent_begin coherent_end
    coherent_sendToSerial coherent_OnSerialData coherent_flush coherent_flushLoop
    coherent_cleanup
  by simp

lemma sentQueue_inv: "coherent (sentQueue 1000)" "allocated (sentQueue 1000)"
  by (simp_all add: coherent_def allocated_def sentQueue_def NewWriteQueue_def IsZero_def)

theorem coherence_preserved_witness:
  "coherent (sentQueue 1000) \<and> allocated (sentQueue 1000) \<and> \<not> IsZero 2000 \<and>
   coherent (fst (Send (sentQueue 1000) ''c2'' [7] 1500 1500 1500)) \<and>
   coherent (fst (sendToSerial_begin (sentQueue 1000) 0)) \<and>
   coherent (fst (sendToSerial_end (sentQueue 1000) 0 True 2000)) \<and>
   coherent (fst (sendToSerial (sentQueue 1000) 0 False 2000)) \<and>
   coherent (OnSerialData (sentQueue 1000) [7] 2000 2000) \<and>
   coherent (fst (flushResponseLocked (sentQueue 1000) 2000 2000)) \<and>
   coherent (fst (flushResponseLoop_fired (sentQueue 1000) 2000 2000)) \<and>
   coherent (fst (WriteQueue_CleanupExpired (sentQueue 1000) 2000 2000))"
  using
    coherence_preserved [of None emptyLog "sentQueue 1000" "''c2''" "[7]" 1500 1500 1500 0 2000 True
      2000 2000 2000]
    coherence_preserved [of None emptyLog "sentQueue 1000" "''c2''" "[7]" 1500 1500 1500 0 2000 False
      2000 2000 2000]
  by (simp add: sentQueue_inv IsZero_def)

section \<open>Held and open, or completed\<close>

lemma delete_absent: "h \<notin> fst ` set w \<Longrightarrow> AList.delete h w = w"
  by (induction w) auto

lemma mset_delete_waiting:
  "distinct (map fst w) \<Longrightarrow>
   mset (concat (map snd (AList.delete h w))) + mset (waitingList_of w h) =
     mset (concat (map snd w))"
proof (induction w)
  case Nil
  show ?case by (simp add: waitingList_of_def)
next
  case (Cons e w)
  show ?case
  proof (cases "fst e = h")
    case True
    with Cons.prems have "h \<notin> fst ` set w" by auto
    then have "AList.delete h (e # w) = w"
      using True by (cases e) (simp add: delete_absent)
    moreover have "waitingList_of (e # w) h = snd e"
      using True by (cases e) (simp add: waitingList_of_def)
    ultimately show ?thesis by simp
  next
    case False
    then have "AList.delete h (e # w) = e # AList.delete h w"
      by (cases e) auto
    moreover have "waitingList_of (e # w) h = waitingList_of w h"
      using False by (cases e) (auto simp: waitingList_of_def)
    ultimately show ?thesis using Cons by simp
  qed
qed

lemma mset_update_waiting:
  "mset (concat (map snd (AList.update h xs w))) + mset (waitingList_of w h) =
     mset (concat (map snd w)) + mset xs"
proof (induction w)
  case Nil
  show ?case by (simp add: waitingList_of_def)
next
  case (Cons e w)
  show ?case
  proof (cases "fst e = h")
    case True
    then show ?thesis by (cases e) (simp add: waitingList_of_def)
  next
    case False
    then have "waitingList_of (e # w) h = waitingList_of w h"
      by (cases e) (auto simp: waitingList_of_def)
    then show ?thesis using Cons False by (cases e) (simp add: ac_simps)
  qed
qed

lemma sink_inv_init: "sink_inv (NewWriteQueue sp L)"
  by (simp add: sink_inv_def NewWriteQueue_def tracked_def waiters_def)

lemma sink_inv_frame:
  assumes "sink_inv q" "tracked q' = tracked q" "waiting q' = waiting q"
    "heapNext q' = heapNext q"
    "\<And>x. done_flag (heap q' x) = done_flag (heap q x)"
    "\<And>x. ResponseCh (heap q' x) = ResponseCh (heap q x)"
  shows "sink_inv q'"
  using assms by (simp add: sink_inv_def open_req_def completed_def)

lemma completed_finish: "open_req r \<Longrightarrow> completed (finish f r)"
  by (cases f)
     (simp_all add: open_req_def completed_def finishWithResponse_def finishNoResponse_def
        make_chan_def chan_send_def chan_close_def received_def)

lemma sink_inv_remove:
  assumes inv: "sink_inv q"
    and m: "mset (tracked q') + mset R = mset (tracked q)"
    and h: "\<And>x. done_flag (heap q' x) = done_flag (finishAll f R (heap q) x)"
           "\<And>x. ResponseCh (heap q' x) = ResponseCh (finishAll f R (heap q) x)"
    and n: "heapNext q' = heapNext q"
    and k: "distinct (map fst (waiting q'))"
  shows "sink_inv q'"
proof -
  have d: "distinct (tracked q)" using inv by (simp add: sink_inv_def)
  have "mset (tracked q' @ R) = mset (tracked q)" using m by simp
  then have dd: "distinct (tracked q' @ R)" and s: "set (tracked q' @ R) = set (tracked q)"
    using d by (metis mset_eq_imp_distinct_iff, metis mset_eq_setD)
  have disj: "set (tracked q') \<inter> set R = {}" and d': "distinct (tracked q')"
    using dd by auto
  have 1: "\<forall>r \<in> set (tracked q'). r < heapNext q' \<and> open_req (heap q' r)"
  proof
    fix r assume r: "r \<in> set (tracked q')"
    then have "r \<in> set (tracked q)" "r \<notin> set R" using s disj by auto
    then show "r < heapNext q' \<and> open_req (heap q' r)"
      using inv by (simp add: sink_inv_def n open_req_def h finishAll_apply)
  qed
  have 2: "\<forall>r < heapNext q'. r \<notin> set (tracked q') \<longrightarrow> completed (heap q' r)"
  proof (intro allI impI)
    fix r assume r: "r < heapNext q'" "r \<notin> set (tracked q')"
    show "completed (heap q' r)"
    proof (cases "r \<in> set R")
      case True
      then have "r \<in> set (tracked q)" using s by auto
      then have "open_req (heap q r)" using inv by (simp add: sink_inv_def)
      from completed_finish [OF this, of f] True show ?thesis
        by (simp add: completed_def h finishAll_apply)
    next
      case False
      with r s have "r \<notin> set (tracked q)" by auto
      with r inv have "completed (heap q r)" by (simp add: sink_inv_def n)
      with False show ?thesis by (simp add: completed_def h finishAll_apply)
    qed
  qed
  from k d' 1 2 show ?thesis by (simp add: sink_inv_def)
qed

lemma Send_hit_result:
  assumes "RequestCache_Get (cache q) (hashData dat) t1 \<noteq> None \<or>
           RequestCache_Get (cache q) (hashData dat) t2 \<noteq> None"
  shows "fst (Send q c dat t1 t2 t3) = q" "snd (snd (Send q c dat t1 t2 t3)) = None"
  using assms by (auto simp: Send_def Let_def split: option.splits)

lemma Send_wait_result:
  assumes "RequestCache_Get (cache q) (hashData dat) t1 = None"
      and "RequestCache_Get (cache q) (hashData dat) t2 = None"
      and "inflight q (hashData dat) \<noteq> None"
  shows "Send q c dat t1 t2 t3 =
     (q\<lparr>heap := (heap q)(heapNext q :=
            \<lparr>ID = 0, ClientID = c, DataHash = hashData dat, Request = dat,
             ResponseCh = make_chan, Timestamp = t3, SentAt = 0, done_flag = False\<rparr>),
         heapNext := Suc (heapNext q),
         waiting := AList.update (hashData dat)
            (waitingList_of (waiting q) (hashData dat) @ [heapNext q]) (waiting q),
         clientIndex := (clientIndex q)(c \<mapsto> - 1)\<rparr>,
      ChannelOf (heapNext q), None)"
  using assms by (auto simp: Send_def Let_def)

lemma Send_main_result:
  assumes "RequestCache_Get (cache q) (hashData dat) t1 = None"
      and "RequestCache_Get (cache q) (hashData dat) t2 = None"
      and "inflight q (hashData dat) = None"
  shows "Send q c dat t1 t2 t3 =
     (q\<lparr>heap := (heap q)(heapNext q :=
            \<lparr>ID = nextReqID q + 1, ClientID = c, DataHash = hashData dat, Request = dat,
             ResponseCh = make_chan, Timestamp = t3, SentAt = 0, done_flag = False\<rparr>),
         heapNext := Suc (heapNext q),
         nextReqID := nextReqID q + 1,
         inflight := (inflight q)(hashData dat \<mapsto> heapNext q),
         pending := pending q @ [heapNext q],
         clientIndex := (clientIndex q)(c \<mapsto> int (length (pending q @ [heapNext q])) - 1)\<rparr>,
      ChannelOf (heapNext q),
      if length (pending q @ [heapNext q]) = 1 then Some (heapNext q) else None)"
  using assms by (simp add: Send_def Let_def)

lemma Send_cases:
  obtains (hit) "RequestCache_Get (cache q) (hashData dat) t1 \<noteq> None \<or>
           RequestCache_Get (cache q) (hashData dat) t2 \<noteq> None"
  | (wait) "RequestCache_Get (cache q) (hashData dat) t1 = None"
      "RequestCache_Get (cache q) (hashData dat) t2 = None"
      "inflight q (hashData dat) \<noteq> None"
  | (main) "RequestCache_Get (cache q) (hashData dat) t1 = None"
      "RequestCache_Get (cache q) (hashData dat) t2 = None"
      "inflight q (hashData dat) = None"
  by blast

lemma sink_inv_add:
  assumes inv: "sink_inv q"
    and m: "mset (tracked q') = mset (heapNext q # tracked q)"
    and n: "heapNext q' = Suc (heapNext q)"
    and h: "\<And>x. x \<noteq> heapNext q \<Longrightarrow> heap q' x = heap q x"
    and op: "open_req (heap q' (heapNext q))"
    and k: "distinct (map fst (waiting q'))"
  shows "sink_inv q'"
proof -
  have fresh: "heapNext q \<notin> set (tracked q)" using inv by (auto simp: sink_inv_def)
  have s: "set (tracked q') = insert (heapNext q) (set (tracked q))"
    using mset_eq_setD [OF m] by simp
  have "distinct (heapNext q # tracked q)"
    using fresh inv by (simp add: sink_inv_def)
  then have d: "distinct (tracked q')"
    using mset_eq_imp_distinct_iff [OF m] by simp
  have 1: "\<forall>r \<in> set (tracked q'). r < heapNext q' \<and> open_req (heap q' r)"
  proof
    fix r assume "r \<in> set (tracked q')"
    then consider "r = heapNext q" | "r \<in> set (tracked q)" "r \<noteq> heapNext q"
      using s fresh by auto
    then show "r < heapNext q' \<and> open_req (heap q' r)"
    proof cases
      case 1
      then show ?thesis using op n by simp
    next
      case 2
      then show ?thesis using inv n h [of r] by (simp add: sink_inv_def less_Suc_eq)
    qed
  qed
  have 2: "\<forall>r < heapNext q'. r \<notin> set (tracked q') \<longrightarrow> completed (heap q' r)"
  proof (intro allI impI)
    fix r assume r: "r < heapNext q'" "r \<notin> set (tracked q')"
    then have "r \<noteq> heapNext q" "r \<notin> set (tracked q)" "r < heapNext q"
      using s n by auto
    then show "completed (heap q' r)"
      using inv h [of r] by (simp add: sink_inv_def)
  qed
  from k d 1 2 show ?thesis by (simp add: sink_inv_def)
qed

lemma sink_inv_Send:
  assumes "sink_inv q"
  shows "sink_inv (fst (Send q c dat t1 t2 t3))"
proof (cases rule: Send_cases [where q = q and dat = dat and ?t1.0 = t1 and ?t2.0 = t2])
  case hit
  then show ?thesis using assms by (simp add: Send_hit_result)
next
  case wait
  let ?h = "hashData dat"
  let ?q' = "fst (Send q c dat t1 t2 t3)"
  note eq = Send_wait_result [OF wait, of c t3]
  have "mset (waiters ?q') + mset (waitingList_of (waiting q) ?h) =
      mset (waiters q) + mset (waitingList_of (waiting q) ?h @ [heapNext q])"
    unfolding eq waiters_def by (simp add: mset_update_waiting)
  then have w: "mset (waiters ?q') = mset (waiters q) + {#heapNext q#}" by simp
  have "pending ?q' = pending q" by (simp add: eq)
  with w have m: "mset (tracked ?q') = mset (heapNext q # tracked q)"
    unfolding tracked_def by simp
  have k: "distinct (map fst (waiting ?q'))"
    using assms by (simp add: eq sink_inv_def distinct_update)
  show ?thesis
    by (rule sink_inv_add [OF assms m _ _ _ k]) (simp_all add: eq open_req_def)
next
  case main
  let ?q' = "fst (Send q c dat t1 t2 t3)"
  note eq = Send_main_result [OF main, of c t3]
  have m: "mset (tracked ?q') = mset (heapNext q # tracked q)"
    by (simp add: eq tracked_def waiters_def)
  have k: "distinct (map fst (waiting ?q'))"
    using assms by (simp add: eq sink_inv_def)
  show ?thesis
    by (rule sink_inv_add [OF assms m _ _ _ k]) (simp_all add: eq open_req_def)
qed

lemma sink_inv_begin:
  assumes "sink_inv q"
  shows "sink_inv (fst (sendToSerial_begin q r))"
  by (rule sink_inv_frame [OF assms])
     (auto simp: sendToSerial_begin_def tracked_def waiters_def split: option.splits)

lemma sink_inv_OnSerialData:
  assumes "sink_inv q"
  shows "sink_inv (OnSerialData q dat now tlog)"
  by (rule sink_inv_frame [OF assms])
     (auto simp: OnSerialData_def Let_def tracked_def waiters_def)

lemma sink_inv_end:
  assumes "sink_inv q"
  shows "sink_inv (fst (sendToSerial_end q r err now))"
proof (cases "pending q = [] \<or> hd (pending q) \<noteq> r")
  case True
  then show ?thesis using assms by (simp add: sendToSerial_end_def)
next
  case False
  then obtain rest where p: "pending q = r # rest" by (cases "pending q") auto
  show ?thesis
  proof (cases err)
    case False
    show ?thesis
      by (rule sink_inv_frame [OF assms])
         (simp_all add: sendToSerial_end_def p False tracked_def waiters_def)
  next
    case True
    let ?h = "DataHash (heap q r)"
    let ?R = "r # waitingList_of (waiting q) ?h"
    let ?q' = "fst (sendToSerial_end q r True now)"
    have k: "distinct (map fst (waiting q))" using assms by (simp add: sink_inv_def)
    have m: "mset (tracked ?q') + mset ?R = mset (tracked q)"
      using mset_delete_waiting [OF k, of ?h]
      by (simp add: sendToSerial_end_def p Let_def tracked_def waiters_def)
    have "sink_inv ?q'"
      by (rule sink_inv_remove [OF assms m, of WithoutResponse])
         (simp_all add: sendToSerial_end_def p Let_def distinct_delete k)
    then show ?thesis using True by simp
  qed
qed

lemma sink_inv_flush:
  assumes "sink_inv q"
  shows "sink_inv (fst (flushResponseLocked q now tset))"
proof (cases "pending q = [] \<or> respBuf q = []")
  case True
  have "sink_inv (q\<lparr>respBuf := []\<rparr>)"
    by (rule sink_inv_frame [OF assms]) (simp_all add: tracked_def waiters_def)
  then show ?thesis using True by (simp add: flushResponseLocked_def)
next
  case False
  then obtain r rest where p: "pending q = r # rest" by (cases "pending q") auto
  let ?h = "DataHash (heap q r)"
  let ?R = "r # waitingList_of (waiting q) ?h"
  let ?q' = "fst (flushResponseLocked q now tset)"
  have k: "distinct (map fst (waiting q))" using assms by (simp add: sink_inv_def)
  have m: "mset (tracked ?q') + mset ?R = mset (tracked q)"
    using mset_delete_waiting [OF k, of ?h] False
    by (simp add: flushResponseLocked_def p Let_def tracked_def waiters_def)
  show ?thesis
    by (rule sink_inv_remove [OF assms m, of "WithResponse (respBuf q)"])
       (use False in \<open>simp_all add: flushResponseLocked_def p Let_def distinct_delete k\<close>)
qed

lemma sink_inv_flushLoop:
  assumes "sink_inv q"
  shows "sink_inv (fst (flushResponseLoop_fired q now tset))"
proof (cases "pending q \<noteq> [] \<and> respBuf q \<noteq> []")
  case True
  then show ?thesis using sink_inv_flush [OF assms] by (simp add: flushResponseLoop_fired_def)
next
  case False
  have "sink_inv (q\<lparr>respBuf := []\<rparr>)"
    by (rule sink_inv_frame [OF assms]) (simp_all add: tracked_def waiters_def)
  then show ?thesis using False by (auto simp: flushResponseLoop_fired_def)
qed

lemma cleanupPendingStep_mset:
  assumes "distinct (map fst (waiting (fst ql)))"
  shows "mset (waiters (fst (cleanupPendingStep now i r ql))) +
           mset (active (snd (cleanupPendingStep now i r ql))) +
           mset (expired (snd (cleanupPendingStep now i r ql))) =
         mset (waiters (fst ql)) + mset (active (snd ql)) + mset (expired (snd ql)) + {#r#}
       \<and> distinct (map fst (waiting (fst (cleanupPendingStep now i r ql))))"
proof (cases "survives (fst ql) now r")
  case True
  then show ?thesis using assms
    by (simp add: cleanupPendingStep_def Let_def survives_iff waiters_def)
next
  case False
  let ?h = "DataHash (heap (fst ql) r)"
  show ?thesis
  proof (cases "map_of (waiting (fst ql)) ?h")
    case None
    then show ?thesis using assms False
      by (simp add: cleanupPendingStep_def Let_def survives_iff waiters_def)
  next
    case (Some ws)
    then have "waitingList_of (waiting (fst ql)) ?h = ws" by (simp add: waitingList_of_def)
    with mset_delete_waiting [OF assms, of ?h]
    have "mset (concat (map snd (AList.delete ?h (waiting (fst ql))))) + mset ws =
      mset (concat (map snd (waiting (fst ql))))" by simp
    then show ?thesis using assms False Some
      by (simp add: cleanupPendingStep_def Let_def survives_iff waiters_def distinct_delete)
  qed
qed

lemma cleanupPending_mset:
  assumes "distinct (map fst (waiting (fst ql)))"
  shows "mset (waiters (fst (cleanupPending now i rs ql))) +
           mset (active (snd (cleanupPending now i rs ql))) +
           mset (expired (snd (cleanupPending now i rs ql))) =
         mset (waiters (fst ql)) + mset (active (snd ql)) + mset (expired (snd ql)) + mset rs
       \<and> distinct (map fst (waiting (fst (cleanupPending now i rs ql))))"
  using assms
proof (induction rs arbitrary: i ql)
  case Nil
  then show ?case by simp
next
  case (Cons r rs)
  from cleanupPendingStep_mset [OF Cons.prems, of now i r]
  show ?case using Cons.IH [of "cleanupPendingStep now i r ql" "Suc i"] by simp
qed

lemma cleanupWaitingStep_mset:
  assumes "distinct (map fst (waiting (fst ql)))"
      and "map_of (waiting (fst ql)) h = Some ws"
  shows "mset (waiters (fst (cleanupWaitingStep now (h, ws) ql))) +
           mset (expired (snd (cleanupWaitingStep now (h, ws) ql))) =
         mset (waiters (fst ql)) + mset (expired (snd ql))"
    and "distinct (map fst (waiting (fst (cleanupWaitingStep now (h, ws) ql))))"
    and "h' \<noteq> h \<Longrightarrow> map_of (waiting (fst (cleanupWaitingStep now (h, ws) ql))) h' =
           map_of (waiting (fst ql)) h'"
proof -
  let ?w = "waiting (fst ql)"
  let ?aw = "filter (waiterAlive (fst ql) now) ws"
  let ?dead = "filter (\<lambda>w. \<not> waiterAlive (fst ql) now w) ws"
  have wl: "waitingList_of ?w h = ws" using assms(2) by (simp add: waitingList_of_def)
  have split: "mset ?aw + mset ?dead = mset ws" by simp
  show "mset (waiters (fst (cleanupWaitingStep now (h, ws) ql))) +
           mset (expired (snd (cleanupWaitingStep now (h, ws) ql))) =
         mset (waiters (fst ql)) + mset (expired (snd ql))"
  proof (cases "?aw = []")
    case True
    then have "mset ?dead = mset ws" using split by simp
    moreover have "mset (concat (map snd (AList.delete h ?w))) + mset ws = mset (concat (map snd ?w))"
      using mset_delete_waiting [OF assms(1), of h] wl by simp
    ultimately show ?thesis using True
      by (simp add: cleanupWaitingStep_def Let_def waiters_def)
  next
    case False
    have "mset (concat (map snd (AList.update h ?aw ?w))) + mset ws =
        mset (concat (map snd ?w)) + mset ?aw"
      using mset_update_waiting [of h ?aw ?w] wl by simp
    then have "mset (concat (map snd (AList.update h ?aw ?w))) + mset ?dead + mset ws =
        mset (concat (map snd ?w)) + mset ws"
      using split by (metis (no_types, lifting) add.assoc add.commute)
    then have "mset (concat (map snd (AList.update h ?aw ?w))) + mset ?dead =
        mset (concat (map snd ?w))" by simp
    then show ?thesis using False
      by (simp add: cleanupWaitingStep_def Let_def waiters_def)
  qed
  show "distinct (map fst (waiting (fst (cleanupWaitingStep now (h, ws) ql))))"
    using assms(1) by (simp add: cleanupWaitingStep_def Let_def distinct_update distinct_delete)
  show "h' \<noteq> h \<Longrightarrow> map_of (waiting (fst (cleanupWaitingStep now (h, ws) ql))) h' =
           map_of (waiting (fst ql)) h'"
    by (simp add: cleanupWaitingStep_def Let_def update_conv' delete_conv')
qed

lemma cleanupWaiting_mset:
  assumes "distinct (map fst (waiting (fst ql)))"
      and "distinct (map fst es)"
      and "\<forall>e \<in> set es. map_of (waiting (fst ql)) (fst e) = Some (snd e)"
  shows "mset (waiters (fst (fold (cleanupWaitingStep now) es ql))) +
           mset (expired (snd (fold (cleanupWaitingStep now) es ql))) =
         mset (waiters (fst ql)) + mset (expired (snd ql))
       \<and> distinct (map fst (waiting (fst (fold (cleanupWaitingStep now) es ql))))"
  using assms
proof (induction es arbitrary: ql)
  case Nil
  then show ?case by simp
next
  case (Cons e es)
  obtain h ws where e: "e = (h, ws)" by (cases e)
  have m: "map_of (waiting (fst ql)) h = Some ws" using Cons.prems(3) e by simp
  note step = cleanupWaitingStep_mset [OF Cons.prems(1) m, where now = now]
  have "\<forall>e' \<in> set es. map_of (waiting (fst (cleanupWaitingStep now (h, ws) ql))) (fst e') = Some (snd e')"
  proof
    fix e' assume e': "e' \<in> set es"
    then have "fst e' \<noteq> h" using Cons.prems(2) e by auto
    then show "map_of (waiting (fst (cleanupWaitingStep now (h, ws) ql))) (fst e') = Some (snd e')"
      using step(3) Cons.prems(3) e' by simp
  qed
  from Cons.IH [OF step(2) _ this] Cons.prems(2) step(1)
  show ?case by (simp add: e)
qed

lemma cleanupLocked_mset:
  assumes "distinct (map fst (waiting q))"
  shows "mset (tracked (fst (cleanupLocked q tc now))) + mset (expired (snd (cleanupLocked q tc now))) =
           mset (tracked q)
       \<and> distinct (map fst (waiting (fst (cleanupLocked q tc now))))"
proof -
  let ?q0 = "q\<lparr>cache := RequestCache_CleanupExpired (cache q) tc\<rparr>"
  let ?l0 = "\<lparr>active = [], newIndex = Map.empty, expired = [], firstWasExpired = False\<rparr>"
  let ?ql1 = "cleanupPending now 0 (pending q) (?q0, ?l0)"
  let ?q2 = "(fst ?ql1)\<lparr>pending := active (snd ?ql1), clientIndex := newIndex (snd ?ql1)\<rparr>"
  let ?ql3 = "fold (cleanupWaitingStep now) (waiting ?q2) (?q2, snd ?ql1)"
  have 1: "mset (waiters (fst ?ql1)) + mset (active (snd ?ql1)) + mset (expired (snd ?ql1)) =
      mset (waiters q) + mset (pending q)"
    and k1: "distinct (map fst (waiting (fst ?ql1)))"
    using cleanupPending_mset [of "(?q0, ?l0)" now 0 "pending q"] assms
    by (simp_all add: waiters_def)
  have w2: "waiting ?q2 = waiting (fst ?ql1)" by simp
  have "\<forall>e \<in> set (waiting ?q2). map_of (waiting (fst (?q2, snd ?ql1))) (fst e) = Some (snd e)"
    using k1 by (simp add: w2)
  from cleanupWaiting_mset [of "(?q2, snd ?ql1)" "waiting ?q2" now, OF _ _ this] k1
  have 3: "mset (waiters (fst ?ql3)) + mset (expired (snd ?ql3)) =
      mset (waiters (fst ?ql1)) + mset (expired (snd ?ql1))"
    and k3: "distinct (map fst (waiting (fst ?ql3)))"
    by (simp_all add: waiters_def)
  have p3: "pending (fst ?ql3) = active (snd ?ql1)"
    using sameButMaps_fields(3)
      [OF cleanupWaiting_frame [where ql = "(?q2, snd ?ql1)" and now = now and es = "waiting ?q2"]]
    by simp
  have "mset (pending (fst ?ql3)) + mset (waiters (fst ?ql3)) + mset (expired (snd ?ql3)) =
      mset (pending q) + mset (waiters q)"
    using 1 3 p3 by (simp add: ac_simps)
  then show ?thesis using k3
    by (simp add: cleanupLocked_def Let_def tracked_def waiters_def)
qed

lemma sink_inv_cleanup:
  assumes "sink_inv q"
  shows "sink_inv (fst (WriteQueue_CleanupExpired q tc now))"
proof -
  let ?ql = "cleanupLocked q tc now"
  let ?q' = "fst (WriteQueue_CleanupExpired q tc now)"
  have k: "distinct (map fst (waiting q))" using assms by (simp add: sink_inv_def)
  note c = cleanupLocked_mset [OF k, of tc now]
  have q': "?q' = fold finishExpired (expired (snd ?ql)) (fst ?ql)"
    by (simp add: WriteQueue_CleanupExpired_def Let_def)
  have t: "tracked ?q' = tracked (fst ?ql)" "waiting ?q' = waiting (fst ?ql)"
    by (simp_all add: q' tracked_def waiters_def finishExpired_fold_fields)
  show ?thesis
    by (rule sink_inv_remove [OF assms, of _ "expired (snd ?ql)" WithoutResponse])
       (use c in \<open>simp_all add: t, simp_all add: q' finishExpired_fold_heap
          finishExpired_fold_fields cleanupLocked_fields\<close>)
qed

lemma sink_inv_stop:
  assumes "sink_inv q"
  shows "sink_inv (StopCleanupTimer q)"
  by (rule sink_inv_frame [OF assms])
     (simp_all add: StopCleanupTimer_def tracked_def waiters_def)

lemma run_snoc: "run (es @ [e]) s = step e (run es s)"
  by (simp add: run_def)

lemma sink_inv_step: "sink_inv (queue s) \<Longrightarrow> sink_inv (queue (step e s))"
  by (cases e)
     (simp_all add: sink_inv_Send sink_inv_begin sink_inv_end sink_inv_OnSerialData
        sink_inv_flushLoop sink_inv_cleanup sink_inv_stop)

lemma sink_inv_run: "sink_inv (queue (run es (initial sp L)))"
proof (induction es rule: rev_induct)
  case Nil
  show ?case by (simp add: run_def initial_def sink_inv_init)
next
  case (snoc e es)
  then show ?case by (simp add: run_snoc sink_inv_step)
qed




lemma received_finish: "open_req r \<Longrightarrow> received (ResponseCh (finish f r)) = Some (outcome_of f)"
  by (cases f)
     (simp_all add: open_req_def finishWithResponse_def finishNoResponse_def
        make_chan_def chan_send_def chan_close_def received_def)



lemma set_waiting_delete:
  "set (concat (map snd (AList.delete h w))) \<subseteq> set (concat (map snd w))"
  by (induction w) auto

lemma cleanupPendingStep_waiters:
  "set (waiters (fst (cleanupPendingStep now i r ql))) \<subseteq> set (waiters (fst ql))"
  using set_waiting_delete [of "DataHash (heap (fst ql) r)" "waiting (fst ql)"]
  by (cases "map_of (waiting (fst ql)) (DataHash (heap (fst ql) r))")
     (auto simp: cleanupPendingStep_def Let_def waiters_def)

lemma cleanupPending_waiters:
  "set (waiters (fst (cleanupPending now i rs ql))) \<subseteq> set (waiters (fst ql))"
proof (induction rs arbitrary: i ql)
  case Nil
  show ?case by simp
next
  case (Cons r rs)
  show ?case
    using Cons [of "Suc i" "cleanupPendingStep now i r ql"]
      cleanupPendingStep_waiters [of now i r ql] by auto
qed

lemma cleanup_queue_fields:
  defines "F q now \<equiv> pending q \<noteq> [] \<and> \<not> survives q now (hd (pending q))"
  shows "pending (fst (WriteQueue_CleanupExpired q tc now)) = filter (survives q now) (pending q)"
    and "respState (fst (WriteQueue_CleanupExpired q tc now)) =
           (if F q now then respStateIdle else respState q)"
    and "respBuf (fst (WriteQueue_CleanupExpired q tc now)) = (if F q now then [] else respBuf q)"
    and "heapNext (fst (WriteQueue_CleanupExpired q tc now)) = heapNext q"
    and "serial (fst (WriteQueue_CleanupExpired q tc now)) = serial q"
    and "Request (heap (fst (WriteQueue_CleanupExpired q tc now)) x) = Request (heap q x)"
    and "DataHash (heap (fst (WriteQueue_CleanupExpired q tc now)) x) = DataHash (heap q x)"
    and "waiters (fst (WriteQueue_CleanupExpired q tc now)) = waiters (fst (cleanupLocked q tc now))"
    and "inflight (fst (WriteQueue_CleanupExpired q tc now)) = inflight (fst (cleanupLocked q tc now))"
  unfolding F_def
  by (simp_all add: WriteQueue_CleanupExpired_def Let_def finishExpired_fold_fields
      finishExpired_fold_heap cleanupLocked_pending cleanupLocked_fields waiters_def)



section \<open>Writes and responses of deduplicated requests\<close>

lemma write_inv_keeps:
  assumes "write_inv sp s" "keeps (queue s) q'"
  shows "write_inv sp (s\<lparr>queue := q'\<rparr>)"
proof -
  let ?q = "queue s"
  have hd_in: "pending q' \<noteq> [] \<Longrightarrow> hd (pending q') \<in> set (pending q')" by simp
  have t: "\<forall>r \<in> set (tracked q'). r \<in> set (wrote s) \<longrightarrow>
         pending q' \<noteq> [] \<and> r = hd (pending q') \<and> respState q' \<noteq> respStateIdle"
    using assms(1,2) unfolding write_inv_def keeps_def by (metis subsetD)
  have "map (\<lambda>r. Request (heap q' r)) (wrote s) = map (\<lambda>r. Request (heap ?q r)) (wrote s)"
    using assms(2) by (simp add: keeps_def)
  then have ser: "serial q' = map_option (\<lambda>L0. L0 @ map (\<lambda>r. Request (heap q' r)) (wrote s)) sp"
    using assms(1,2) by (simp add: write_inv_def keeps_def)
  have rest: "distinct (wrote s)" "distinct (writers s)" "set (writers s) \<subseteq> set (wrote s)"
    "\<forall>r \<in> set (wrote s). r < heapNext q'"
    "respState q' \<noteq> respStateIdle \<longrightarrow> pending q' \<noteq> [] \<and> hd (pending q') \<in> set (wrote s)"
    "respBuf q' \<noteq> [] \<longrightarrow> respState q' = respStateWaiting"
    "\<forall>r \<in> set (writers s). pending q' \<noteq> [] \<and> hd (pending q') = r \<longrightarrow>
         respState q' = respStateSending"
    using assms(1,2) unfolding write_inv_def keeps_def by metis+
  from t ser rest show ?thesis by (simp add: write_inv_def)
qed

lemma write_inv_drops:
  assumes "write_inv sp s" "drops (queue s) q'"
  shows "write_inv sp (s\<lparr>queue := q'\<rparr>)"
proof -
  let ?q = "queue s"
  have nw: "\<forall>r \<in> set (tracked q'). r \<notin> set (wrote s)"
    using assms unfolding write_inv_def drops_def by blast
  have hd_in: "pending q' \<noteq> [] \<Longrightarrow> hd (pending q') \<in> set (tracked q')"
    by (simp add: tracked_def)
  have "map (\<lambda>r. Request (heap q' r)) (wrote s) = map (\<lambda>r. Request (heap ?q r)) (wrote s)"
    using assms(2) by (simp add: drops_def)
  then have ser: "serial q' = map_option (\<lambda>L0. L0 @ map (\<lambda>r. Request (heap q' r)) (wrote s)) sp"
    using assms by (simp add: write_inv_def drops_def)
  have buf: "respBuf q' = []"
    using assms unfolding write_inv_def drops_def by auto
  have st: "respState q' = respStateIdle" using assms(2) by (simp add: drops_def)
  have wr: "\<forall>r \<in> set (writers s). pending q' \<noteq> [] \<and> hd (pending q') = r \<longrightarrow>
         respState q' = respStateSending"
    using nw hd_in assms(1) unfolding write_inv_def by blast
  have rest: "distinct (wrote s)" "distinct (writers s)" "set (writers s) \<subseteq> set (wrote s)"
    "\<forall>r \<in> set (wrote s). r < heapNext q'"
    using assms unfolding write_inv_def drops_def by simp_all
  from nw ser buf st wr rest show ?thesis by (simp add: write_inv_def)
qed

lemma write_inv_writers_remove:
  assumes "write_inv sp s"
  shows "write_inv sp (s\<lparr>writers := remove1 r (writers s)\<rparr>)"
proof -
  have "set (remove1 r (writers s)) \<subseteq> set (writers s)" by (rule set_remove1_subset)
  then show ?thesis
    using assms unfolding write_inv_def
    by (simp add: subset_iff)
qed

lemma set_waiting_update:
  "set (concat (map snd (AList.update h xs w))) \<subseteq> set (concat (map snd w)) \<union> set xs"
  by (induction w) auto

lemma set_waitingList_of: "set (waitingList_of w h) \<subseteq> set (concat (map snd w))"
proof (cases "map_of w h")
  case None
  then show ?thesis by (simp add: waitingList_of_def)
next
  case (Some ws)
  then have "(h, ws) \<in> set w" by (rule map_of_SomeD)
  then show ?thesis using Some by (force simp: waitingList_of_def)
qed

lemma keeps_stop: "keeps q (StopCleanupTimer q)"
  by (simp add: StopCleanupTimer_def keeps_def tracked_def waiters_def)

lemma keeps_OnSerialData: "keeps q (OnSerialData q dat now tlog)"
  by (auto simp: OnSerialData_def Let_def keeps_def tracked_def waiters_def)

lemma tracked_drop_head:
  assumes "sink_inv q" "pending q = r # rest"
  shows "set (rest @ concat (map snd (AList.delete h (waiting q)))) \<subseteq> set (tracked q) - {r}"
proof -
  have "distinct (r # rest @ waiters q)"
    using assms by (simp add: sink_inv_def tracked_def)
  then have "r \<notin> set rest" "r \<notin> set (waiters q)" by auto
  then show ?thesis
    using set_waiting_delete [of h "waiting q"] assms(2)
    by (auto simp: tracked_def waiters_def)
qed

lemma drops_flush:
  assumes "sink_inv q" "pending q \<noteq> []" "respBuf q \<noteq> []"
  shows "drops q (fst (flushResponseLoop_fired q now tset))"
proof -
  obtain r rest where p: "pending q = r # rest" using assms(2) by (cases "pending q") auto
  have "set (tracked (fst (flushResponseLoop_fired q now tset))) \<subseteq> set (tracked q) - {r}"
    using tracked_drop_head [OF assms(1) p, of "DataHash (heap q r)"] assms(3)
    by (simp add: flushResponseLoop_fired_def flushResponseLocked_def Let_def p tracked_def
        waiters_def)
  then show ?thesis
    using assms(3)
    by (simp add: drops_def flushResponseLoop_fired_def flushResponseLocked_def Let_def p)
qed

lemma keeps_flush:
  assumes "pending q = [] \<or> respBuf q = []"
  shows "keeps q (fst (flushResponseLoop_fired q now tset))"
  using assms by (auto simp: keeps_def flushResponseLoop_fired_def tracked_def waiters_def)

lemma end_not_head:
  "pending q = [] \<or> hd (pending q) \<noteq> r \<Longrightarrow> fst (sendToSerial_end q r err now) = q"
  by (simp add: sendToSerial_end_def)

lemma drops_end_failure:
  assumes "sink_inv q" "pending q = r # rest" "respState q = respStateSending"
  shows "drops q (fst (sendToSerial_end q r True now))"
proof -
  have "set (tracked (fst (sendToSerial_end q r True now))) \<subseteq> set (tracked q) - {r}"
    using tracked_drop_head [OF assms(1,2), of "DataHash (heap q r)"]
    by (simp add: sendToSerial_end_def Let_def assms(2) tracked_def waiters_def)
  then show ?thesis
    using assms(3) by (simp add: drops_def sendToSerial_end_def Let_def assms(2))
qed

lemma cleanupWaitingStep_waiters:
  "set (waiters (fst (cleanupWaitingStep now e ql))) \<subseteq> set (waiters (fst ql)) \<union> set (snd e)"
  using set_waiting_delete [of "fst e" "waiting (fst ql)"]
    set_waiting_update [of "fst e" "filter (waiterAlive (fst ql) now) (snd e)" "waiting (fst ql)"]
  by (auto simp: cleanupWaitingStep_def Let_def waiters_def)

lemma cleanupWaiting_waiters:
  assumes "distinct (map fst (waiting (fst ql)))"
      and "distinct (map fst es)"
      and "\<forall>e \<in> set es. map_of (waiting (fst ql)) (fst e) = Some (snd e)"
  shows "set (waiters (fst (fold (cleanupWaitingStep now) es ql))) \<subseteq> set (waiters (fst ql))"
  using assms
proof (induction es arbitrary: ql)
  case Nil
  then show ?case by simp
next
  case (Cons e es)
  obtain h ws where e: "e = (h, ws)" by (cases e)
  have m: "map_of (waiting (fst ql)) h = Some ws" using Cons.prems(3) e by simp
  note step = cleanupWaitingStep_mset [OF Cons.prems(1) m, where now = now]
  have "\<forall>e' \<in> set es. map_of (waiting (fst (cleanupWaitingStep now (h, ws) ql))) (fst e') = Some (snd e')"
  proof
    fix e' assume e': "e' \<in> set es"
    then have "fst e' \<noteq> h" using Cons.prems(2) e by auto
    then show "map_of (waiting (fst (cleanupWaitingStep now (h, ws) ql))) (fst e') = Some (snd e')"
      using step(3) Cons.prems(3) e' by simp
  qed
  from Cons.IH [OF step(2) _ this] Cons.prems(2)
  have "set (waiters (fst (fold (cleanupWaitingStep now) es (cleanupWaitingStep now (h, ws) ql))))
      \<subseteq> set (waiters (fst (cleanupWaitingStep now (h, ws) ql)))" by simp
  moreover have "set ws \<subseteq> set (waiters (fst ql))"
    using set_waitingList_of [of "waiting (fst ql)" h] m by (simp add: waitingList_of_def waiters_def)
  ultimately show ?case
    using cleanupWaitingStep_waiters [of now "(h, ws)" ql] by (auto simp: e)
qed

lemma cleanupLocked_waiters:
  assumes "distinct (map fst (waiting q))"
  shows "set (waiters (fst (cleanupLocked q tc now))) \<subseteq> set (waiters q)"
proof -
  let ?q0 = "q\<lparr>cache := RequestCache_CleanupExpired (cache q) tc\<rparr>"
  let ?l0 = "\<lparr>active = [], newIndex = Map.empty, expired = [], firstWasExpired = False\<rparr>"
  let ?ql1 = "cleanupPending now 0 (pending q) (?q0, ?l0)"
  let ?q2 = "(fst ?ql1)\<lparr>pending := active (snd ?ql1), clientIndex := newIndex (snd ?ql1)\<rparr>"
  let ?ql3 = "fold (cleanupWaitingStep now) (waiting ?q2) (?q2, snd ?ql1)"
  have 1: "set (waiters (fst ?ql1)) \<subseteq> set (waiters q)"
    using cleanupPending_waiters [of now 0 "pending q" "(?q0, ?l0)"] by (simp add: waiters_def)
  have k1: "distinct (map fst (waiting (fst ?ql1)))"
    using cleanupPending_mset [of "(?q0, ?l0)" now 0 "pending q"] assms by simp
  have "\<forall>e \<in> set (waiting ?q2). map_of (waiting (fst (?q2, snd ?ql1))) (fst e) = Some (snd e)"
    using k1 by simp
  from cleanupWaiting_waiters [of "(?q2, snd ?ql1)" "waiting ?q2" now, OF _ _ this] k1
  have "set (waiters (fst ?ql3)) \<subseteq> set (waiters (fst ?ql1))"
    by (simp add: waiters_def)
  with 1 show ?thesis
    by (auto simp: cleanupLocked_def Let_def waiters_def)
qed

lemma keeps_or_drops_cleanup:
  assumes "sink_inv q"
  shows "if pending q \<noteq> [] \<and> \<not> survives q now (hd (pending q))
         then drops q (fst (WriteQueue_CleanupExpired q tc now))
         else keeps q (fst (WriteQueue_CleanupExpired q tc now))"
proof -
  let ?q' = "fst (WriteQueue_CleanupExpired q tc now)"
  have k: "distinct (map fst (waiting q))" and d: "distinct (pending q @ waiters q)"
    using assms by (simp_all add: sink_inv_def tracked_def)
  have w: "set (waiters ?q') \<subseteq> set (waiters q)"
    using cleanupLocked_waiters [OF k, of tc now] by (simp add: cleanup_queue_fields)
  have p: "pending ?q' = filter (survives q now) (pending q)"
    by (simp add: cleanup_queue_fields)
  show ?thesis
  proof (cases "pending q \<noteq> [] \<and> \<not> survives q now (hd (pending q))")
    case True
    then obtain r rest where pr: "pending q = r # rest" "\<not> survives q now r"
      by (cases "pending q") auto
    have "r \<notin> set (waiters q)" "r \<notin> set rest" using d pr by auto
    then have "set (tracked ?q') \<subseteq> set (tracked q) - {hd (pending q)}"
      using w pr by (auto simp: tracked_def p)
    then show ?thesis
      using True by (simp add: drops_def cleanup_queue_fields)
  next
    case False
    have t: "set (tracked ?q') \<subseteq> set (tracked q)"
      using w by (auto simp: tracked_def p)
    have "pending q \<noteq> [] \<longrightarrow> pending ?q' \<noteq> [] \<and> hd (pending ?q') = hd (pending q)"
      using False hd_filter_keep [of "pending q" "survives q now"] by (auto simp: p)
    then show ?thesis
      using False t by (auto simp: keeps_def cleanup_queue_fields p)
  qed
qed

lemma write_inv_add:
  assumes inv: "write_inv sp s"
    and n: "heapNext q' = Suc (heapNext (queue s))"
    and ser: "serial q' = serial (queue s)"
    and h: "\<And>x. x \<noteq> heapNext (queue s) \<Longrightarrow> Request (heap q' x) = Request (heap (queue s) x)"
    and t: "set (tracked q') = insert (heapNext (queue s)) (set (tracked (queue s)))"
    and st: "respState q' = respState (queue s)" "respBuf q' = respBuf (queue s)"
    and p: "pending q' = pending (queue s) \<or> pending q' = pending (queue s) @ [heapNext (queue s)]"
  shows "write_inv sp (s\<lparr>queue := q'\<rparr>)"
proof -
  let ?q = "queue s" let ?new = "heapNext (queue s)"
  have nw: "?new \<notin> set (wrote s)" "?new \<notin> set (writers s)"
    using inv unfolding write_inv_def by auto
  have hd: "pending ?q \<noteq> [] \<Longrightarrow> pending q' \<noteq> [] \<and> hd (pending q') = hd (pending ?q)"
    using p by auto
  have hd0: "pending ?q = [] \<Longrightarrow> pending q' = [] \<or> hd (pending q') = ?new"
    using p by auto
  have 1: "\<forall>r \<in> set (tracked q'). r \<in> set (wrote s) \<longrightarrow>
         pending q' \<noteq> [] \<and> r = hd (pending q') \<and> respState q' \<noteq> respStateIdle"
  proof (intro ballI impI)
    fix r assume r: "r \<in> set (tracked q')" "r \<in> set (wrote s)"
    then have "r \<in> set (tracked ?q)" using t nw by auto
    with r inv have "pending ?q \<noteq> [] \<and> r = hd (pending ?q) \<and> respState ?q \<noteq> respStateIdle"
      unfolding write_inv_def by blast
    then show "pending q' \<noteq> [] \<and> r = hd (pending q') \<and> respState q' \<noteq> respStateIdle"
      using hd st by simp
  qed
  have 2: "respState q' \<noteq> respStateIdle \<longrightarrow> pending q' \<noteq> [] \<and> hd (pending q') \<in> set (wrote s)"
    using inv hd st unfolding write_inv_def by auto
  have 3: "\<forall>r \<in> set (writers s). pending q' \<noteq> [] \<and> hd (pending q') = r \<longrightarrow>
         respState q' = respStateSending"
  proof (intro ballI impI)
    fix r assume r: "r \<in> set (writers s)" "pending q' \<noteq> [] \<and> hd (pending q') = r"
    show "respState q' = respStateSending"
    proof (cases "pending ?q = []")
      case True
      with hd0 r have "r = ?new" by auto
      with nw r show ?thesis by simp
    next
      case False
      with hd r inv st show ?thesis unfolding write_inv_def by auto
    qed
  qed
  have "\<forall>x \<in> set (wrote s). Request (heap q' x) = Request (heap ?q x)"
    using h nw by metis
  then have me: "map (\<lambda>r. Request (heap q' r)) (wrote s) =
      map (\<lambda>r. Request (heap ?q r)) (wrote s)"
    by simp
  have 4: "serial q' = map_option (\<lambda>L0. L0 @ map (\<lambda>r. Request (heap q' r)) (wrote s)) sp"
    unfolding me ser using inv unfolding write_inv_def by blast
  have rest: "distinct (wrote s)" "distinct (writers s)" "set (writers s) \<subseteq> set (wrote s)"
    "\<forall>r \<in> set (wrote s). r < heapNext q'"
    "respBuf q' \<noteq> [] \<longrightarrow> respState q' = respStateWaiting"
    using inv n st unfolding write_inv_def by (simp_all add: less_Suc_eq)
  from 1 2 3 4 rest show ?thesis by (simp add: write_inv_def)
qed

lemma set_waiting_append:
  "set (concat (map snd (AList.update h (waitingList_of w h @ [r]) w))) =
     insert r (set (concat (map snd w)))"
proof -
  have "mset (concat (map snd (AList.update h (waitingList_of w h @ [r]) w))) +
      mset (waitingList_of w h) = mset (concat (map snd w)) + mset (waitingList_of w h @ [r])"
    by (rule mset_update_waiting)
  then have "mset (concat (map snd (AList.update h (waitingList_of w h @ [r]) w))) =
      mset (r # concat (map snd w))" by simp
  from mset_eq_setD [OF this] show ?thesis by simp
qed

lemma write_inv_Send:
  assumes "write_inv sp s"
  shows "write_inv sp (s\<lparr>queue := fst (Send (queue s) c dat t1 t2 t3)\<rparr>)"
proof (cases rule: Send_cases [where q = "queue s" and dat = dat and ?t1.0 = t1 and ?t2.0 = t2])
  case hit
  then show ?thesis using assms by (simp add: Send_hit_result)
next
  case wait
  note eq = Send_wait_result [OF wait, of c t3]
  have t: "set (tracked (fst (Send (queue s) c dat t1 t2 t3))) =
      insert (heapNext (queue s)) (set (tracked (queue s)))"
    by (simp add: eq tracked_def waiters_def set_waiting_append del: set_concat)
  show ?thesis
    by (rule write_inv_add [OF assms _ _ _ t]) (simp_all add: eq)
next
  case main
  note eq = Send_main_result [OF main, of c t3]
  show ?thesis
    by (rule write_inv_add [OF assms])
       (simp_all add: eq tracked_def waiters_def)
qed

lemma begin_not_issued: "\<not> snd (sendToSerial_begin q r) \<Longrightarrow> fst (sendToSerial_begin q r) = q"
  by (auto simp: sendToSerial_begin_def split: option.splits if_splits)

lemma begin_issued:
  assumes "snd (sendToSerial_begin q r)"
  obtains L where "serial q = Some L" "pending q \<noteq> []" "hd (pending q) = r"
    "respState q = respStateIdle"
    "fst (sendToSerial_begin q r) =
       q\<lparr>respState := respStateSending, serial := Some (L @ [Request (heap q r)])\<rparr>"
  using assms by (auto simp: sendToSerial_begin_def split: option.splits if_splits)

lemma write_inv_begin:
  assumes inv: "write_inv sp s" and sk: "sink_inv (queue s)"
  shows "write_inv sp (step (EvWriterBegin r) s)"
proof (cases "snd (sendToSerial_begin (queue s) r)")
  case False
  then show ?thesis using inv by (simp add: begin_not_issued)
next
  case True
  let ?q = "queue s"
  from begin_issued [OF True] obtain L where
    b: "serial ?q = Some L" "pending ?q \<noteq> []" "hd (pending ?q) = r" "respState ?q = respStateIdle"
    "fst (sendToSerial_begin ?q r) =
       ?q\<lparr>respState := respStateSending, serial := Some (L @ [Request (heap ?q r)])\<rparr>"
    by blast
  let ?q' = "?q\<lparr>respState := respStateSending, serial := Some (L @ [Request (heap ?q r)])\<rparr>"
  have rp: "r \<in> set (pending ?q)" using b(2,3) by auto
  then have rt: "r \<in> set (tracked ?q)" by (simp add: tracked_def)
  then have ralloc: "r < heapNext ?q" using sk by (simp add: sink_inv_def)
  have rnw: "r \<notin> set (wrote s)" using inv rt b(4) unfolding write_inv_def by blast
  then have rnwr: "r \<notin> set (writers s)" using inv unfolding write_inv_def by blast
  have dt: "distinct (tracked ?q)" using sk by (simp add: sink_inv_def)
  have tq: "tracked ?q' = tracked ?q" by (simp add: tracked_def waiters_def)
  have 1: "\<forall>x \<in> set (tracked ?q'). x \<in> set (wrote s @ [r]) \<longrightarrow>
         pending ?q' \<noteq> [] \<and> x = hd (pending ?q') \<and> respState ?q' \<noteq> respStateIdle"
    using inv b unfolding write_inv_def tq by auto
  obtain L0 where sp: "sp = Some L0" "L = L0 @ map (\<lambda>r. Request (heap ?q r)) (wrote s)"
    using inv b(1) unfolding write_inv_def by (cases sp) auto
  have 4: "serial ?q' = map_option (\<lambda>L0. L0 @ map (\<lambda>x. Request (heap ?q' x)) (wrote s @ [r])) sp"
    by (simp add: sp)
  have 5: "respBuf ?q' \<noteq> [] \<longrightarrow> respState ?q' = respStateWaiting"
    using inv b(4) unfolding write_inv_def by auto
  have rest: "distinct (wrote s @ [r])" "distinct (r # writers s)"
    "set (r # writers s) \<subseteq> set (wrote s @ [r])"
    "\<forall>x \<in> set (wrote s @ [r]). x < heapNext ?q'"
    "respState ?q' \<noteq> respStateIdle \<longrightarrow> pending ?q' \<noteq> [] \<and> hd (pending ?q') \<in> set (wrote s @ [r])"
    "\<forall>x \<in> set (r # writers s). pending ?q' \<noteq> [] \<and> hd (pending ?q') = x \<longrightarrow>
         respState ?q' = respStateSending"
    using inv rnw rnwr ralloc b unfolding write_inv_def by auto
  have "write_inv sp (s\<lparr>queue := ?q', writers := r # writers s, wrote := wrote s @ [r]\<rparr>)"
    unfolding write_inv_def using 1 4 5 rest by simp
  then show ?thesis using True b(5) by simp
qed

lemma write_inv_end:
  assumes inv: "write_inv sp s" and sk: "sink_inv (queue s)"
  shows "write_inv sp (step (EvWriterEnd r err now) s)"
proof (cases "r \<in> set (writers s)")
  case False
  then show ?thesis using inv by simp
next
  case True
  let ?q = "queue s"
  show ?thesis
  proof (cases "pending ?q = [] \<or> hd (pending ?q) \<noteq> r")
    case True
    then have "step (EvWriterEnd r err now) s = s\<lparr>writers := remove1 r (writers s)\<rparr>"
      using \<open>r \<in> set (writers s)\<close> by (simp add: end_not_head)
    then show ?thesis using write_inv_writers_remove [OF inv] by simp
  next
    case False
    then obtain rest where p: "pending ?q = r # rest" by (cases "pending ?q") auto
    have snd: "respState ?q = respStateSending"
      using inv True p unfolding write_inv_def by auto
    show ?thesis
    proof (cases err)
      case True
      have "write_inv sp (s\<lparr>queue := fst (sendToSerial_end ?q r True now)\<rparr>)"
        by (rule write_inv_drops [OF inv drops_end_failure [OF sk p snd]])
      from write_inv_writers_remove [OF this, of r] show ?thesis
        using True \<open>r \<in> set (writers s)\<close> by simp
    next
      case False
      let ?q' = "?q\<lparr>heap := (heap ?q)(r := (heap ?q r)\<lparr>SentAt := now\<rparr>),
           currentReqID := ID (heap ?q r), respState := respStateWaiting\<rparr>"
      have q': "fst (sendToSerial_end ?q r False now) = ?q'"
        by (simp add: sendToSerial_end_def p)
      have tq: "tracked ?q' = tracked ?q" by (simp add: tracked_def waiters_def)
      have rq: "Request (heap ?q' x) = Request (heap ?q x)" for x by simp
      have dw: "r \<notin> set (remove1 r (writers s))"
        using inv unfolding write_inv_def by simp
      have 1: "\<forall>x \<in> set (tracked ?q'). x \<in> set (wrote s) \<longrightarrow>
         pending ?q' \<noteq> [] \<and> x = hd (pending ?q') \<and> respState ?q' \<noteq> respStateIdle"
        using inv unfolding write_inv_def tq by auto
      have me: "map (\<lambda>x. Request (heap ?q' x)) (wrote s) =
          map (\<lambda>x. Request (heap ?q x)) (wrote s)"
        by simp
      have ser: "serial ?q' = serial ?q" by simp
      have 4: "serial ?q' = map_option (\<lambda>L0. L0 @ map (\<lambda>x. Request (heap ?q' x)) (wrote s)) sp"
        unfolding me ser using inv unfolding write_inv_def by blast
      have rest: "distinct (wrote s)" "distinct (remove1 r (writers s))"
        "set (remove1 r (writers s)) \<subseteq> set (wrote s)"
        "\<forall>x \<in> set (wrote s). x < heapNext ?q'"
        "respState ?q' \<noteq> respStateIdle \<longrightarrow> pending ?q' \<noteq> [] \<and> hd (pending ?q') \<in> set (wrote s)"
        "respBuf ?q' \<noteq> [] \<longrightarrow> respState ?q' = respStateWaiting"
        "\<forall>x \<in> set (remove1 r (writers s)). pending ?q' \<noteq> [] \<and> hd (pending ?q') = x \<longrightarrow>
           respState ?q' = respStateSending"
        using inv snd p dw set_remove1_subset [of r "writers s"] unfolding write_inv_def
        by auto
      have "write_inv sp (s\<lparr>queue := ?q', writers := remove1 r (writers s)\<rparr>)"
        unfolding write_inv_def using 1 4 rest by simp
      then show ?thesis using False \<open>r \<in> set (writers s)\<close> q' by simp
    qed
  qed
qed

lemma write_inv_step:
  assumes inv: "write_inv sp s" and sk: "sink_inv (queue s)"
  shows "write_inv sp (step e s)"
proof (cases e)
  case (EvSend c dat t1 t2 t3)
  then show ?thesis using write_inv_Send [OF inv] by simp
next
  case (EvWriterBegin r)
  then show ?thesis using write_inv_begin [OF inv sk] by simp
next
  case (EvWriterEnd r err now)
  then show ?thesis using write_inv_end [OF inv sk] by simp
next
  case (EvSerialData dat now tlog)
  then show ?thesis using write_inv_keeps [OF inv keeps_OnSerialData] by simp
next
  case (EvFlush now tset)
  show ?thesis
  proof (cases "pending (queue s) \<noteq> [] \<and> respBuf (queue s) \<noteq> []")
    case True
    then show ?thesis
      using write_inv_drops [OF inv drops_flush [OF sk]] EvFlush by simp
  next
    case False
    then show ?thesis
      using write_inv_keeps [OF inv keeps_flush] EvFlush by auto
  qed
next
  case (EvCleanup tc now)
  show ?thesis
    using keeps_or_drops_cleanup [OF sk, of now tc] write_inv_drops [OF inv]
      write_inv_keeps [OF inv] EvCleanup
    by (auto split: if_splits)
next
  case EvStop
  then show ?thesis using write_inv_keeps [OF inv keeps_stop] by simp
qed

lemma write_inv_init: "write_inv sp (initial sp L)"
  by (cases sp) (simp_all add: write_inv_def initial_def NewWriteQueue_def tracked_def waiters_def)

lemma write_inv_run: "write_inv sp (run es (initial sp L))"
proof (induction es rule: rev_induct)
  case Nil
  show ?case by (simp add: run_def write_inv_init)
next
  case (snoc e es)
  then show ?case using sink_inv_run [of es sp] by (simp add: run_snoc write_inv_step)
qed

lemma fingerprinted_init: "fingerprinted (NewWriteQueue sp L)"
  by (simp add: fingerprinted_def NewWriteQueue_def)

lemma fingerprinted_Send:
  assumes "fingerprinted q"
  shows "fingerprinted (fst (Send q c dat t1 t2 t3))"
  using assms
  by (auto simp: fingerprinted_def Send_def Let_def less_Suc_eq split: option.splits)

lemma fingerprinted_begin:
  assumes "fingerprinted q"
  shows "fingerprinted (fst (sendToSerial_begin q r))"
  using assms by (auto simp: fingerprinted_def sendToSerial_begin_def split: option.splits)

lemma fingerprinted_end:
  assumes "fingerprinted q"
  shows "fingerprinted (fst (sendToSerial_end q r err now))"
  using assms by (auto simp: fingerprinted_def sendToSerial_end_def Let_def)

lemma fingerprinted_OnSerialData:
  assumes "fingerprinted q"
  shows "fingerprinted (OnSerialData q dat now tlog)"
  using assms by (auto simp: fingerprinted_def OnSerialData_def Let_def)

lemma fingerprinted_flush:
  assumes "fingerprinted q"
  shows "fingerprinted (fst (flushResponseLoop_fired q now tset))"
  using assms
  by (auto simp: fingerprinted_def flushResponseLoop_fired_def flushResponseLocked_def Let_def)

lemma inflight_inv_init: "inflight_inv (NewWriteQueue sp L)"
  by (simp add: inflight_inv_def NewWriteQueue_def)

lemma inflight_inv_Send:
  assumes "inflight_inv q" "sink_inv q"
  shows "inflight_inv (fst (Send q c dat t1 t2 t3))"
proof -
  have alloc: "\<forall>m \<in> set (pending q). m \<noteq> heapNext q"
    using assms(2) by (auto simp: sink_inv_def tracked_def)
  show ?thesis
  proof (cases rule: Send_cases [where q = q and dat = dat and ?t1.0 = t1 and ?t2.0 = t2])
    case hit
    then show ?thesis using assms by (simp add: Send_hit_result)
  next
    case wait
    show ?thesis
      using assms(1) alloc unfolding inflight_inv_def Send_wait_result [OF wait]
      by auto
  next
    case main
    show ?thesis
      using assms(1) alloc unfolding inflight_inv_def Send_main_result [OF main]
      by auto
  qed
qed

lemma inflight_inv_begin:
  assumes "inflight_inv q"
  shows "inflight_inv (fst (sendToSerial_begin q r))"
  using assms by (auto simp: inflight_inv_def sendToSerial_begin_def split: option.splits)

lemma inflight_inv_OnSerialData:
  assumes "inflight_inv q"
  shows "inflight_inv (OnSerialData q dat now tlog)"
  using assms by (auto simp: inflight_inv_def OnSerialData_def Let_def)

lemma inflight_inv_end:
  assumes "inflight_inv q"
  shows "inflight_inv (fst (sendToSerial_end q r err now))"
proof (cases "pending q")
  case Nil
  then show ?thesis using assms by (simp add: sendToSerial_end_def)
next
  case (Cons a rest)
  then show ?thesis
    using assms unfolding inflight_inv_def
    by (auto simp: sendToSerial_end_def Let_def)
qed

lemma inflight_inv_flush:
  assumes "inflight_inv q"
  shows "inflight_inv (fst (flushResponseLoop_fired q now tset))"
proof (cases "pending q")
  case Nil
  then show ?thesis using assms
    by (simp add: flushResponseLoop_fired_def inflight_inv_def)
next
  case (Cons a rest)
  then show ?thesis
    using assms unfolding inflight_inv_def
    by (auto simp: flushResponseLoop_fired_def flushResponseLocked_def Let_def)
qed

lemma cleanupPendingStep_inflight:
  "inflight (fst (cleanupPendingStep now i r ql)) =
     (if survives (fst ql) now r then inflight (fst ql)
      else (inflight (fst ql))(DataHash (heap (fst ql) r) := None))"
  by (cases "map_of (waiting (fst ql)) (DataHash (heap (fst ql) r))")
     (simp_all add: cleanupPendingStep_def Let_def survives_iff)

lemma cleanupPending_inflight:
  "inflight (fst (cleanupPending now i rs ql)) h = Some m \<Longrightarrow>
     inflight (fst ql) h = Some m \<and>
     (\<forall>r \<in> set rs. \<not> survives (fst ql) now r \<longrightarrow> DataHash (heap (fst ql) r) \<noteq> h)"
proof (induction rs arbitrary: i ql)
  case Nil
  then show ?case by simp
next
  case (Cons r rs)
  have sv: "survives (fst (cleanupPendingStep now i r ql)) now = survives (fst ql) now"
    by (rule ext) (simp add: survives_def)
  from Cons.IH [of "Suc i" "cleanupPendingStep now i r ql"] Cons.prems
  have "inflight (fst (cleanupPendingStep now i r ql)) h = Some m"
    and "\<forall>x \<in> set rs. \<not> survives (fst ql) now x \<longrightarrow> DataHash (heap (fst ql) x) \<noteq> h"
    by (simp_all add: sv)
  then show ?case
    by (auto simp: cleanupPendingStep_inflight split: if_splits)
qed

lemma cleanupWaiting_inflight:
  "inflight (fst (fold (cleanupWaitingStep now) es ql)) = inflight (fst ql)"
  by (induction es arbitrary: ql) (simp_all add: cleanupWaitingStep_def Let_def)

lemma cleanupLocked_inflight:
  "inflight (fst (cleanupLocked q tc now)) h = Some m \<Longrightarrow>
     inflight q h = Some m \<and>
     (\<forall>r \<in> set (pending q). \<not> survives q now r \<longrightarrow> DataHash (heap q r) \<noteq> h)"
proof -
  let ?q0 = "q\<lparr>cache := RequestCache_CleanupExpired (cache q) tc\<rparr>"
  have sv: "survives ?q0 now = survives q now"
    by (rule ext) (simp add: survives_def)
  assume "inflight (fst (cleanupLocked q tc now)) h = Some m"
  then have "inflight (fst (cleanupPending now 0 (pending q)
      (?q0, \<lparr>active = [], newIndex = Map.empty, expired = [], firstWasExpired = False\<rparr>))) h = Some m"
    by (simp add: cleanupLocked_def Let_def cleanupWaiting_inflight split: if_splits)
  from cleanupPending_inflight [OF this] show ?thesis by (simp add: sv)
qed

lemma inflight_inv_cleanup:
  assumes "inflight_inv q"
  shows "inflight_inv (fst (WriteQueue_CleanupExpired q tc now))"
  unfolding inflight_inv_def
proof (intro allI impI)
  fix h m
  assume "inflight (fst (WriteQueue_CleanupExpired q tc now)) h = Some m"
  then have "inflight (fst (cleanupLocked q tc now)) h = Some m"
    by (simp add: cleanup_queue_fields)
  from cleanupLocked_inflight [OF this]
  have i: "inflight q h = Some m"
    and d: "\<forall>r \<in> set (pending q). \<not> survives q now r \<longrightarrow> DataHash (heap q r) \<noteq> h"
    by simp_all
  from i assms have m: "m \<in> set (pending q)" "DataHash (heap q m) = h"
    by (auto simp: inflight_inv_def)
  with d have "survives q now m" by blast
  with m show "m \<in> set (pending (fst (WriteQueue_CleanupExpired q tc now))) \<and>
      DataHash (heap (fst (WriteQueue_CleanupExpired q tc now)) m) = h"
    by (simp add: cleanup_queue_fields)
qed

lemma fingerprinted_cleanup:
  assumes "fingerprinted q"
  shows "fingerprinted (fst (WriteQueue_CleanupExpired q tc now))"
  using assms by (simp add: fingerprinted_def cleanup_queue_fields)

lemma fingerprinted_stop:
  assumes "fingerprinted q"
  shows "fingerprinted (StopCleanupTimer q)"
  using assms by (simp add: fingerprinted_def StopCleanupTimer_def)

lemma inflight_inv_stop:
  assumes "inflight_inv q"
  shows "inflight_inv (StopCleanupTimer q)"
  using assms by (simp add: inflight_inv_def StopCleanupTimer_def)

lemma fingerprinted_run: "fingerprinted (queue (run es (initial sp L)))"
proof (induction es rule: rev_induct)
  case Nil
  show ?case by (simp add: run_def initial_def fingerprinted_init)
next
  case (snoc e es)
  then show ?case
    by (cases e)
       (simp_all add: run_snoc fingerprinted_Send fingerprinted_begin fingerprinted_end
          fingerprinted_OnSerialData fingerprinted_flush fingerprinted_cleanup
          fingerprinted_stop)
qed

lemma inflight_inv_step:
  assumes "inflight_inv (queue s)" "sink_inv (queue s)"
  shows "inflight_inv (queue (step e s))"
  using assms
  by (cases e)
     (simp_all add: inflight_inv_Send inflight_inv_begin inflight_inv_end
        inflight_inv_OnSerialData inflight_inv_flush inflight_inv_cleanup inflight_inv_stop)

lemma inflight_inv_run: "inflight_inv (queue (run es (initial sp L)))"
proof (induction es rule: rev_induct)
  case Nil
  show ?case by (simp add: run_def initial_def inflight_inv_init)
next
  case (snoc e es)
  then show ?case using sink_inv_run [of es sp] by (simp add: run_snoc inflight_inv_step)
qed

lemma flush_delivers:
  assumes sk: "sink_inv q" and p: "pending q = m # rest" and b: "respBuf q \<noteq> []"
      and x: "x \<in> set (m # waitingList_of (waiting q) (DataHash (heap q m)))"
  shows "received (ResponseCh (heap (fst (flushResponseLoop_fired q now tset)) x)) =
           Some (Delivered (respBuf q))"
proof -
  have "set (waitingList_of (waiting q) (DataHash (heap q m))) \<subseteq> set (waiters q)"
    using set_waitingList_of by (simp add: waiters_def)
  then have "x \<in> set (tracked q)" using x p by (auto simp: tracked_def)
  then have o: "open_req (heap q x)" using sk by (simp add: sink_inv_def)
  have "heap (fst (flushResponseLoop_fired q now tset)) x = finishWithResponse (heap q x) (respBuf q)"
    using x p b
    by (simp add: flushResponseLoop_fired_def flushResponseLocked_def Let_def finishAll_apply)
  then show ?thesis
    using received_finish [OF o, of "WithResponse (respBuf q)"] by simp
qed

text \<open>
  Claim C3. In every state the system can reach: if \<^verbatim>\<open>Send\<close> is called with a payload
  for which no live cache entry exists while the inflight index holds a main \<open>m\<close> for
  its fingerprint, then \<open>m\<close> is a queued request with that fingerprint, and the new
  request is appended to the waiter list of that fingerprint; the queue is unchanged,
  nothing is written to the port and no writer is started. And if a frame is about to
  complete the head \<open>h\<close> (the queue starts with \<open>h\<close> and the response buffer is not
  empty), then the port has received exactly one write for \<open>h\<close> and none for any of its
  waiters, what the port has received being the payloads of the written requests; and the
  flush gives \<open>h\<close> and every one of its waiters the same bytes, the response buffer.
\<close>

theorem dedup_one_write_same_response:
  assumes "s = run es (initial sp L)" and "q = queue s"
  shows
  "(RequestCache_Get (cache q) (hashData p) t1 = None \<and>
    RequestCache_Get (cache q) (hashData p) t2 = None \<and>
    inflight q (hashData p) = Some m \<longrightarrow>
      m \<in> set (pending q) \<and> hashData (Request (heap q m)) = hashData p \<and>
      snd (Send q c2 p t1 t2 t3) = (ChannelOf (heapNext q), None) \<and>
      pending (fst (Send q c2 p t1 t2 t3)) = pending q \<and>
      serial (fst (Send q c2 p t1 t2 t3)) = serial q \<and>
      waitingList_of (waiting (fst (Send q c2 p t1 t2 t3))) (DataHash (heap q m)) =
        waitingList_of (waiting q) (DataHash (heap q m)) @ [heapNext q]) \<and>
   (pending q = h # rest \<and> respBuf q \<noteq> [] \<longrightarrow>
      h \<in> set (wrote s) \<and> distinct (wrote s) \<and>
      (\<forall>w \<in> set (waitingList_of (waiting q) (DataHash (heap q h))). w \<notin> set (wrote s)) \<and>
      serial q = map_option (\<lambda>L0. L0 @ map (\<lambda>r. Request (heap q r)) (wrote s)) sp \<and>
      (\<forall>x \<in> set (h # waitingList_of (waiting q) (DataHash (heap q h))).
         received (ResponseCh (heap (fst (flushResponseLoop_fired q now tset)) x)) =
           Some (Delivered (respBuf q))))"
proof -
  have sk: "sink_inv q" and wi: "write_inv sp s" and ii: "inflight_inv q"
    and fp: "fingerprinted q"
    unfolding assms by (rule sink_inv_run write_inv_run inflight_inv_run fingerprinted_run)+
  have q: "queue s = q" by (simp add: assms)
  have A: "m \<in> set (pending q) \<and> hashData (Request (heap q m)) = hashData p \<and>
      snd (Send q c2 p t1 t2 t3) = (ChannelOf (heapNext q), None) \<and>
      pending (fst (Send q c2 p t1 t2 t3)) = pending q \<and>
      serial (fst (Send q c2 p t1 t2 t3)) = serial q \<and>
      waitingList_of (waiting (fst (Send q c2 p t1 t2 t3))) (DataHash (heap q m)) =
        waitingList_of (waiting q) (DataHash (heap q m)) @ [heapNext q]"
    if a: "RequestCache_Get (cache q) (hashData p) t1 = None"
      "RequestCache_Get (cache q) (hashData p) t2 = None"
      "inflight q (hashData p) = Some m"
  proof -
    have "inflight q (hashData p) \<noteq> None" using a(3) by simp
    note eq = Send_wait_result [OF a(1,2) this, of c2 t3]
    have m: "m \<in> set (pending q)" "DataHash (heap q m) = hashData p"
      using ii a(3) by (simp_all add: inflight_inv_def)
    then have "m < heapNext q" using sk by (simp add: sink_inv_def tracked_def)
    then have "hashData (Request (heap q m)) = hashData p"
      using fp m(2) by (simp add: fingerprinted_def)
    with m show ?thesis
      by (simp add: eq waitingList_of_def update_conv')
  qed
  have B: "h \<in> set (wrote s) \<and> distinct (wrote s) \<and>
      (\<forall>w \<in> set (waitingList_of (waiting q) (DataHash (heap q h))). w \<notin> set (wrote s)) \<and>
      serial q = map_option (\<lambda>L0. L0 @ map (\<lambda>r. Request (heap q r)) (wrote s)) sp \<and>
      (\<forall>x \<in> set (h # waitingList_of (waiting q) (DataHash (heap q h))).
         received (ResponseCh (heap (fst (flushResponseLoop_fired q now tset)) x)) =
           Some (Delivered (respBuf q)))"
    if b: "pending q = h # rest" "respBuf q \<noteq> []"
  proof -
    have st: "respState q \<noteq> respStateIdle"
      using wi b(2) unfolding write_inv_def q by auto
    then have hw: "h \<in> set (wrote s)" using wi b(1) unfolding write_inv_def q by auto
    have d: "distinct (h # rest @ waiters q)"
      using sk b(1) by (simp add: sink_inv_def tracked_def)
    have sub: "set (waitingList_of (waiting q) (DataHash (heap q h))) \<subseteq> set (waiters q)"
      using set_waitingList_of by (simp add: waiters_def)
    have nw: "\<forall>w \<in> set (waitingList_of (waiting q) (DataHash (heap q h))). w \<notin> set (wrote s)"
    proof
      fix w assume w: "w \<in> set (waitingList_of (waiting q) (DataHash (heap q h)))"
      then have "w \<in> set (waiters q)" using sub by auto
      then have "w \<in> set (tracked q)" "w \<noteq> h" using d by (auto simp: tracked_def)
      then show "w \<notin> set (wrote s)" using wi b(1) unfolding write_inv_def q by auto
    qed
    have "distinct (wrote s)"
      "serial q = map_option (\<lambda>L0. L0 @ map (\<lambda>r. Request (heap q r)) (wrote s)) sp"
      using wi unfolding write_inv_def q by simp_all
    with hw nw flush_delivers [OF sk b] show ?thesis by blast
  qed
  from A B show ?thesis by blast
qed

lemma dedupAccepted_eval:
  "cache (queue (run dedupAccepted (initial (Some []) emptyLog))) = Map.empty"
  "inflight (queue (run dedupAccepted (initial (Some []) emptyLog))) (hashData [1, 2]) = Some 0"
  "pending (queue (run dedupAccepted (initial (Some []) emptyLog))) = [0]"
  "heapNext (queue (run dedupAccepted (initial (Some []) emptyLog))) = 1"
  "waiting (queue (run dedupAccepted (initial (Some []) emptyLog))) = []"
  "DataHash (heap (queue (run dedupAccepted (initial (Some []) emptyLog))) 0) = hashData [1, 2]"
  by (simp_all add: dedupAccepted_def run_def initial_def eval_defs)

lemma dedupAnswered_eval:
  "pending (queue (run dedupAnswered (initial (Some []) emptyLog))) = [0]"
  "respBuf (queue (run dedupAnswered (initial (Some []) emptyLog))) = [0xFF]"
  "waiting (queue (run dedupAnswered (initial (Some []) emptyLog))) = [(hashData [1, 2], [1])]"
  "DataHash (heap (queue (run dedupAnswered (initial (Some []) emptyLog))) 0) = hashData [1, 2]"
  "Request (heap (queue (run dedupAnswered (initial (Some []) emptyLog))) 0) = [1, 2]"
  "wrote (run dedupAnswered (initial (Some []) emptyLog)) = [0]"
  by (simp_all add: dedupAnswered_def run_def initial_def eval_defs)

theorem dedup_one_write_same_response_witness:
  "snd (Send (queue (run dedupAccepted (initial (Some []) emptyLog))) ''c2'' [1, 2] 1005 1005 1005) =
     (ChannelOf 1, None) \<and>
   pending (fst (Send (queue (run dedupAccepted (initial (Some []) emptyLog))) ''c2'' [1, 2] 1005 1005 1005)) = [0] \<and>
   waitingList_of (waiting (fst (Send (queue (run dedupAccepted (initial (Some []) emptyLog)))
       ''c2'' [1, 2] 1005 1005 1005))) (hashData [1, 2]) = [1] \<and>
   wrote (run dedupAnswered (initial (Some []) emptyLog)) = [0] \<and>
   serial (queue (run dedupAnswered (initial (Some []) emptyLog))) = Some [ [1, 2] ] \<and>
   received (ResponseCh (heap (fst (flushResponseLoop_fired
       (queue (run dedupAnswered (initial (Some []) emptyLog))) 1070000000 1070000000)) 0)) =
     Some (Delivered [0xFF]) \<and>
   received (ResponseCh (heap (fst (flushResponseLoop_fired
       (queue (run dedupAnswered (initial (Some []) emptyLog))) 1070000000 1070000000)) 1)) =
     Some (Delivered [0xFF])"
  using
    dedup_one_write_same_response [of "run dedupAccepted (initial (Some []) emptyLog)" dedupAccepted
      "Some []" emptyLog "queue (run dedupAccepted (initial (Some []) emptyLog))" "[1, 2]" 1005 1005 0
      "''c2''" 1005 0 "[]" 1070000000 1070000000]
    dedup_one_write_same_response [of "run dedupAnswered (initial (Some []) emptyLog)" dedupAnswered
      "Some []" emptyLog "queue (run dedupAnswered (initial (Some []) emptyLog))" "[1, 2]" 1005 1005 0
      "''c2''" 1005 0 "[]" 1070000000 1070000000]
  by (simp add: dedupAccepted_eval dedupAnswered_eval RequestCache_Get_def waitingList_of_def)

section \<open>The outcome of every request\<close>

















end
